theory Spec2Isabelle
  imports Main "HOL-Library.Sublist"
begin

section \<open>acmefmt: byte buffers, Go integers and run-time panics\<close>

text \<open>
  The program is \<^verbatim>\<open>cmd/acmefmt/main.go\<close>. A Go \<^verbatim>\<open>[]byte\<close> and a Go \<^verbatim>\<open>string\<close> are both
  sequences of bytes: they are modelled as \<^typ>\<open>string\<close> (a list of 8-bit characters).
  A Go \<^verbatim>\<open>int\<close> is a 64-bit two's complement integer: it is modelled as an \<^typ>\<open>int\<close>, and
  every arithmetic step of the source that can leave the range is wrapped by \<open>wrap64\<close>.
  An index or a slice expression out of range panics in Go: it is a value \<open>Inl\<close> here.
\<close>

definition newline :: char where
  "newline = CHR 0x0A"

definition wrap64 :: "int \<Rightarrow> int" where
  "wrap64 x = (x + 2 ^ 63) mod 2 ^ 64 - 2 ^ 63"

definition MinInt64 :: int where
  "MinInt64 = - (2 ^ 63)"

definition MaxInt64 :: int where
  "MaxInt64 = 2 ^ 63 - 1"

datatype panic = IndexOutOfRange | SliceBoundsOutOfRange

text \<open>\<^verbatim>\<open>text[i]\<close>\<close>

definition index_at :: "string \<Rightarrow> nat \<Rightarrow> panic + char" where
  "index_at text i = (if i < length text then Inr (text ! i) else Inl IndexOutOfRange)"

text \<open>\<^verbatim>\<open>text[lo:hi]\<close>\<close>

definition slice :: "string \<Rightarrow> nat \<Rightarrow> nat \<Rightarrow> panic + string" where
  "slice text lo hi =
     (if lo \<le> hi \<and> hi \<le> length text then Inr (take (hi - lo) (drop lo text))
      else Inl SliceBoundsOutOfRange)"

section \<open>findLines\<close>

text \<open>
  \<^verbatim>\<open>
  func findLines(text []byte, start, end int) []byte {
      i := 0
      start--
      for ; i < len(text) && start > 0; i++ {
          if text[i] == '\n' { start--; end-- }
      }
      startByte := i
      for ; i < len(text) && end > 0; i++ {
          if text[i] == '\n' { end-- }
      }
      endByte := i
      return text[startByte:endByte]
  }
  \<close>
  The first loop returns the index it stops at together with the value of \<^verbatim>\<open>end\<close>; the second
  loop returns the index it stops at.
\<close>

function findLines_loop1 :: "string \<Rightarrow> nat \<Rightarrow> int \<Rightarrow> int \<Rightarrow> panic + (nat \<times> int)" where
  "findLines_loop1 text i start en =
     (if i < length text \<and> 0 < start then
        (case index_at text i of
           Inl p \<Rightarrow> Inl p
         | Inr c \<Rightarrow>
             if c = newline
             then findLines_loop1 text (i + 1) (wrap64 (start - 1)) (wrap64 (en - 1))
             else findLines_loop1 text (i + 1) start en)
      else Inr (i, en))"
  by pat_completeness auto
termination
  by (relation "measure (\<lambda>(text, i, start, en). length text - i)") auto

function findLines_loop2 :: "string \<Rightarrow> nat \<Rightarrow> int \<Rightarrow> panic + nat" where
  "findLines_loop2 text i en =
     (if i < length text \<and> 0 < en then
        (case index_at text i of
           Inl p \<Rightarrow> Inl p
         | Inr c \<Rightarrow>
             if c = newline
             then findLines_loop2 text (i + 1) (wrap64 (en - 1))
             else findLines_loop2 text (i + 1) en)
      else Inr i)"
  by pat_completeness auto
termination
  by (relation "measure (\<lambda>(text, i, en). length text - i)") auto

declare findLines_loop1.simps [simp del] findLines_loop2.simps [simp del]

text \<open>The two byte offsets \<^verbatim>\<open>startByte\<close> and \<^verbatim>\<open>endByte\<close> that \<^verbatim>\<open>findLines\<close> computes.\<close>

definition findLines_bounds :: "string \<Rightarrow> int \<Rightarrow> int \<Rightarrow> panic + (nat \<times> nat)" where
  "findLines_bounds text start en =
     (case findLines_loop1 text 0 (wrap64 (start - 1)) en of
        Inl p \<Rightarrow> Inl p
      | Inr (startByte, en1) \<Rightarrow>
          (case findLines_loop2 text startByte en1 of
             Inl p \<Rightarrow> Inl p
           | Inr endByte \<Rightarrow> Inr (startByte, endByte)))"

definition findLines :: "string \<Rightarrow> int \<Rightarrow> int \<Rightarrow> panic + string" where
  "findLines text start en =
     (case findLines_bounds text start en of
        Inl p \<Rightarrow> Inl p
      | Inr (startByte, endByte) \<Rightarrow> slice text startByte endByte)"


text \<open>
  The contract of the line indexer, in the words of the specification (section 4.1):
  \<^verbatim>\<open>byteOffsetOfLine(buffer, lineNumber)\<close> is 1-based and line 1 starts at byte 0; lines are
  delimited solely by the newline byte; \<^verbatim>\<open>extractLines(buffer, startLine, endLine)\<close> is the bytes
  from the start of \<^verbatim>\<open>startLine\<close> to the start of \<^verbatim>\<open>endLine + 1\<close>, and is empty when
  \<^verbatim>\<open>startLine > endLine\<close>. \<open>skipLines buf k\<close> is the offset just after the \<open>k\<close>-th newline of
  \<open>buf\<close>, or the length of \<open>buf\<close> when it has fewer than \<open>k\<close> newlines.
\<close>

fun skipLines :: "string \<Rightarrow> nat \<Rightarrow> nat" where
  "skipLines buf 0 = 0"
| "skipLines [] (Suc k) = 0"
| "skipLines (c # cs) (Suc k) =
     Suc (if c = newline then skipLines cs k else skipLines cs (Suc k))"

definition byteOffsetOfLine :: "string \<Rightarrow> nat \<Rightarrow> nat" where
  "byteOffsetOfLine buf lineNumber = skipLines buf (lineNumber - 1)"

definition extractLines :: "string \<Rightarrow> nat \<Rightarrow> nat \<Rightarrow> string" where
  "extractLines buf startLine endLine =
     (if startLine > endLine then []
      else take (byteOffsetOfLine buf (endLine + 1) - byteOffsetOfLine buf startLine)
             (drop (byteOffsetOfLine buf startLine) buf))"

section \<open>parseSpan\<close>

text \<open>
  \<^verbatim>\<open>strconv.Atoi\<close> of the Go standard library: an optional sign, then at least one decimal
  digit and nothing else; a value outside the range of \<^verbatim>\<open>int\<close> is an error as well.
\<close>

definition is_digit :: "char \<Rightarrow> bool" where
  "is_digit c = (48 \<le> (of_char c :: int) \<and> (of_char c :: int) \<le> 57)"

definition digits_value :: "string \<Rightarrow> int" where
  "digits_value ds = foldl (\<lambda>n c. n * 10 + ((of_char c :: int) - 48)) 0 ds"

definition Atoi :: "string \<Rightarrow> int option" where
  "Atoi s =
     (case s of
        [] \<Rightarrow> None
      | c # cs \<Rightarrow>
          let ds = (if c = CHR ''+'' \<or> c = CHR ''-'' then cs else s) in
          if ds = [] \<or> \<not> list_all is_digit ds then None
          else
            let n = digits_value ds;
                v = (if c = CHR ''-'' then - n else n)
            in if MinInt64 \<le> v \<and> v \<le> MaxInt64 then Some v else None)"

text \<open>\<^verbatim>\<open>strings.Index(text, ",")\<close>: the index of the first comma, \<open>None\<close> for Go's \<open>-1\<close>.\<close>

fun strings_Index :: "string \<Rightarrow> char \<Rightarrow> nat option" where
  "strings_Index [] sep = None"
| "strings_Index (c # cs) sep =
     (if c = sep then Some 0 else map_option Suc (strings_Index cs sep))"

text \<open>What the program prints, through \<^verbatim>\<open>log\<close> or on standard error, in the order printed.\<close>

datatype address =
    LinePlus0 int       \<comment> \<open>\<^verbatim>\<open>"%d+#0"\<close>\<close>
  | LineRange int int   \<comment> \<open>\<^verbatim>\<open>"%d,%d"\<close>\<close>
  | Rune0 nat           \<comment> \<open>\<^verbatim>\<open>"0,#%d"\<close>\<close>

datatype message =
    OpenError                     \<comment> \<open>\<^verbatim>\<open>log.Print(err)\<close> after \<^verbatim>\<open>acme.Open\<close>\<close>
  | FormatterFatal string         \<comment> \<open>standard error, output containing \<^verbatim>\<open>fatal error\<close>\<close>
  | FormatterOutput string        \<comment> \<open>standard error, any other failure of the formatter\<close>
  | TempFileError
  | TempWriteError
  | ReadAllError
  | SkippedUpdate                 \<comment> \<open>\<^verbatim>\<open>skipped update to %s: window modified since Put\<close>\<close>
  | CannotParseDiffLine string    \<comment> \<open>\<^verbatim>\<open>cannot parse diff line: %q\<close>\<close>
  | CannotParseSpan string        \<comment> \<open>\<^verbatim>\<open>cannot parse span %q\<close>\<close>
  | AddrError address             \<comment> \<open>\<^verbatim>\<open>log.Print(err)\<close> after a failed \<^verbatim>\<open>w.Addr\<close>\<close>

text \<open>
  \<^verbatim>\<open>
  func parseSpan(text string) (start, end int) {
      i := strings.Index(text, ",")
      if i < 0 {
          n, err := strconv.Atoi(text)
          if err != nil { log.Printf("cannot parse span %q", text); return 0, 0 }
          return n, n
      }
      start, err1 := strconv.Atoi(text[:i])
      end, err2 := strconv.Atoi(text[i+1:])
      if err1 != nil || err2 != nil { log.Printf("cannot parse span %q", text); return 0, 0 }
      return start, end
  }
  \<close>
  The result is the pair returned together with the messages logged.
\<close>

definition parseSpan :: "string \<Rightarrow> (int \<times> int) \<times> message list" where
  "parseSpan text =
     (case strings_Index text (CHR '','') of
        None \<Rightarrow>
          (case Atoi text of
             None \<Rightarrow> ((0, 0), [CannotParseSpan text])
           | Some n \<Rightarrow> ((n, n), []))
      | Some i \<Rightarrow>
          (case (Atoi (take i text), Atoi (drop (i + 1) text)) of
             (Some start, Some en) \<Rightarrow> ((start, en), [])
           | _ \<Rightarrow> ((0, 0), [CannotParseSpan text])))"


section \<open>The acme window\<close>

text \<open>
  The window is the editor's side of \<^verbatim>\<open>9fans.net/go/acme\<close>: a body, the address set by the
  last successful \<^verbatim>\<open>w.Addr\<close>, and the requests received, in order. The body is held as the
  bytes that \<^verbatim>\<open>w.ReadAll("body")\<close> returns, and addresses are kept as byte offsets into it.

  \<^verbatim>\<open>utf8.RuneCount\<close> of the Go standard library counts the characters of a byte sequence: an
  ASCII byte is one character, a well-formed sequence of 2 to 4 bytes is one character, and
  any other byte is one character by itself. \<open>rune_size p\<close> is the number of bytes of the first
  character of \<open>p\<close>.
\<close>

definition byte_in :: "char \<Rightarrow> nat \<Rightarrow> nat \<Rightarrow> bool" where
  "byte_in c lo hi = (lo \<le> (of_char c :: nat) \<and> (of_char c :: nat) \<le> hi)"

text \<open>
  \<open>cont_needed c\<close> is the number of continuation bytes that the lead byte \<open>c\<close> announces, and
  \<open>cont_bytes c cs\<close> the number of bytes of \<open>cs\<close> that belong to the character that \<open>c\<close> starts:
  all those announced when they are present and in the accepted ranges, none otherwise.
\<close>

definition cont_needed :: "char \<Rightarrow> nat" where
  "cont_needed c =
     (if byte_in c 0xC2 0xDF then 1
      else if byte_in c 0xE0 0xEF then 2
      else if byte_in c 0xF0 0xF4 then 3
      else 0)"

definition second_lo :: "char \<Rightarrow> nat" where
  "second_lo c = (if c = CHR 0xE0 then 0xA0 else if c = CHR 0xF0 then 0x90 else 0x80)"

definition second_hi :: "char \<Rightarrow> nat" where
  "second_hi c = (if c = CHR 0xED then 0x9F else if c = CHR 0xF4 then 0x8F else 0xBF)"

definition cont_ok :: "char \<Rightarrow> string \<Rightarrow> bool" where
  "cont_ok c cs =
     (cont_needed c \<le> length cs \<and>
      (if 1 \<le> cont_needed c then byte_in (cs ! 0) (second_lo c) (second_hi c) else True) \<and>
      (if 2 \<le> cont_needed c then byte_in (cs ! 1) 0x80 0xBF else True) \<and>
      (if 3 \<le> cont_needed c then byte_in (cs ! 2) 0x80 0xBF else True))"

definition cont_bytes :: "char \<Rightarrow> string \<Rightarrow> nat" where
  "cont_bytes c cs = (if cont_ok c cs then cont_needed c else 0)"

definition rune_size :: "string \<Rightarrow> nat" where
  "rune_size p = (case p of [] \<Rightarrow> 0 | c # cs \<Rightarrow> Suc (cont_bytes c cs))"

fun RuneCount :: "string \<Rightarrow> nat" where
  "RuneCount [] = 0"
| "RuneCount (c # cs) = Suc (RuneCount (drop (cont_bytes c cs) cs))"

text \<open>The byte offset at which character number \<open>n\<close> of \<open>p\<close> starts; none when \<open>p\<close> is shorter.\<close>

fun rune_offset :: "string \<Rightarrow> nat \<Rightarrow> nat option" where
  "rune_offset p 0 = Some 0"
| "rune_offset p (Suc n) =
     (if p = [] then None
      else map_option (\<lambda>k. rune_size p + k) (rune_offset (drop (rune_size p) p) n))"

datatype wcall =
    Addr address
  | WriteData string
  | WriteCtl string

record window =
  body :: string
  q0 :: nat
  q1 :: nat
  calls :: "wcall list"

text \<open>
  Addresses, as the editor resolves them. A text has one line for each newline, and one more
  when it does not end with a newline. Line \<open>n\<close>, for \<open>1 \<le> n\<close>, runs from the start of line \<open>n\<close> to
  the start of line \<open>n + 1\<close>; line 0 is the empty range at offset 0; the line just after the last
  one is the empty range at the end of the text; any line beyond is out of range. A negative
  number would make a relative address: it is not modelled and is out of range here, as is a
  range whose end lies before its start.
  \<^item> \<^verbatim>\<open>n+#0\<close> is the empty range at the end of line \<open>n\<close>;
  \<^item> \<^verbatim>\<open>m,n\<close> runs from the start of line \<open>m\<close> to the end of line \<open>n\<close>;
  \<^item> \<^verbatim>\<open>0,#n\<close> runs from offset 0 to the start of character number \<open>n\<close>.
\<close>

definition num_lines :: "string \<Rightarrow> nat" where
  "num_lines b = count_list b newline + (if b \<noteq> [] \<and> last b \<noteq> newline then 1 else 0)"

definition acme_line :: "string \<Rightarrow> int \<Rightarrow> (nat \<times> nat) option" where
  "acme_line b n =
     (if n < 0 \<or> int (num_lines b) + 1 < n then None
      else Some (skipLines b (nat n - 1), skipLines b (nat n)))"

fun resolve :: "string \<Rightarrow> address \<Rightarrow> (nat \<times> nat) option" where
  "resolve b (LinePlus0 n) = map_option (\<lambda>r. (snd r, snd r)) (acme_line b n)"
| "resolve b (LineRange m n) =
     (case (acme_line b m, acme_line b n) of
        (Some r, Some r') \<Rightarrow> if fst r \<le> snd r' then Some (fst r, snd r') else None
      | _ \<Rightarrow> None)"
| "resolve b (Rune0 n) = map_option (\<lambda>k. (0, k)) (rune_offset b n)"

text \<open>\<^verbatim>\<open>w.Addr(...)\<close>: the result is whether the address was accepted, and the window.\<close>

definition win_Addr :: "address \<Rightarrow> window \<Rightarrow> bool \<times> window" where
  "win_Addr a w =
     (case resolve (body w) a of
        None \<Rightarrow> (False, w\<lparr>calls := calls w @ [Addr a]\<rparr>)
      | Some r \<Rightarrow> (True, w\<lparr>q0 := fst r, q1 := snd r, calls := calls w @ [Addr a]\<rparr>))"

text \<open>
  \<^verbatim>\<open>w.Write("data", d)\<close> replaces the addressed range by \<open>d\<close> and leaves the address empty, just
  after the text written. The source ignores the error that \<^verbatim>\<open>w.Write\<close> returns.
\<close>

definition win_Write_data :: "string \<Rightarrow> window \<Rightarrow> window" where
  "win_Write_data d w =
     w\<lparr>body := take (q0 w) (body w) @ d @ drop (q1 w) (body w),
       q0 := q0 w + length d,
       q1 := q0 w + length d,
       calls := calls w @ [WriteData d]\<rparr>"

definition win_Write_ctl :: "string \<Rightarrow> window \<Rightarrow> window" where
  "win_Write_ctl d w = w\<lparr>calls := calls w @ [WriteCtl d]\<rparr>"

section \<open>reformat\<close>

record state =
  win :: window
  out :: "message list"

text \<open>
  What the environment answers during one call of \<^verbatim>\<open>reformat\<close>: whether \<^verbatim>\<open>acme.Open\<close> fails,
  the content of the file (none when \<^verbatim>\<open>ioutil.ReadFile\<close> fails), the combined output of the
  formatter and whether it failed, whether creating or writing the temporary file fails, the
  combined output of \<^verbatim>\<open>9 diff\<close>, whether \<^verbatim>\<open>w.ReadAll("body")\<close> fails, and the flag \<^verbatim>\<open>-f\<close>.
  The arguments \<^verbatim>\<open>id\<close>, \<^verbatim>\<open>name\<close> and \<^verbatim>\<open>cmd\<close> of \<^verbatim>\<open>reformat\<close> choose the window, the file and the
  formatter: they act through these answers only.
\<close>

record env =
  dofmt :: bool
  open_fails :: bool
  file_read :: "string option"
  fmt_out :: string
  fmt_fails :: bool
  tempfile_fails :: bool
  tempwrite_fails :: bool
  diff_out :: string
  readall_fails :: bool

text \<open>\<^verbatim>\<open>strings.Split(s, "\n")\<close>\<close>

fun strings_Split :: "string \<Rightarrow> string list" where
  "strings_Split [] = [[]]"
| "strings_Split (c # cs) =
     (case strings_Split cs of
        [] \<Rightarrow> [[c]]
      | l # ls \<Rightarrow> if c = newline then [] # l # ls else (c # l) # ls)"

text \<open>\<^verbatim>\<open>strings.Contains(s, sub)\<close>\<close>

fun strings_Contains :: "string \<Rightarrow> string \<Rightarrow> bool" where
  "strings_Contains [] sub = (sub = [])"
| "strings_Contains (c # cs) sub = (prefix sub (c # cs) \<or> strings_Contains cs sub)"

text \<open>
  The inner loop of \<^verbatim>\<open>reformat\<close>:
  \<^verbatim>\<open>for j < len(line) && line[j] != 'a' && line[j] != 'c' && line[j] != 'd' { j++ }\<close>
\<close>

definition is_op :: "char \<Rightarrow> bool" where
  "is_op c = (c = CHR ''a'' \<or> c = CHR ''c'' \<or> c = CHR ''d'')"

function scan_op :: "string \<Rightarrow> nat \<Rightarrow> nat" where
  "scan_op line j = (if j < length line \<and> \<not> is_op (line ! j) then scan_op line (j + 1) else j)"
  by pat_completeness auto
termination
  by (relation "measure (\<lambda>(line, j). length line - j)") auto

declare scan_op.simps [simp del]

text \<open>
  The head of the body of the loop over the lines of the diff (lines 145 to 161 of the source):
  an empty line and a line that starts with \<^verbatim>\<open><\<close>, \<^verbatim>\<open>-\<close> or \<^verbatim>\<open>>\<close> are passed over; a line with
  none of \<^verbatim>\<open>a\<close>, \<^verbatim>\<open>c\<close>, \<^verbatim>\<open>d\<close> cannot be parsed; any other line is a hunk header, with the
  operation \<^verbatim>\<open>line[j]\<close> and the two spans parsed from \<^verbatim>\<open>line[:j]\<close> and \<^verbatim>\<open>line[j+1:]\<close>.
\<close>

datatype header =
    Ignored
  | Unparseable
  | Hunk char int int int int

definition diff_header :: "string \<Rightarrow> header \<times> message list" where
  "diff_header line =
     (if line = [] then (Ignored, [])
      else if line ! 0 = CHR ''<'' \<or> line ! 0 = CHR ''-'' \<or> line ! 0 = CHR ''>'' then (Ignored, [])
      else
        let j = scan_op line 0 in
        if j \<ge> length line then (Unparseable, [CannotParseDiffLine line])
        else
          let old = parseSpan (take j line);
              new = parseSpan (drop (j + 1) line)
          in (Hunk (line ! j) (fst (fst old)) (snd (fst old)) (fst (fst new)) (snd (fst new)),
              snd old @ snd new))"

text \<open>
  The \<^verbatim>\<open>switch line[j]\<close> (lines 165 to 187). A \<^verbatim>\<open>break\<close> in a case leaves the switch, not the
  loop.
\<close>

definition apply_hunk :: "string \<Rightarrow> char \<Rightarrow> int \<Rightarrow> int \<Rightarrow> int \<Rightarrow> int \<Rightarrow> state \<Rightarrow> panic + state" where
  "apply_hunk new op oldStart oldEnd newStart newEnd st =
     (if op = CHR ''a'' then
        (case win_Addr (LinePlus0 oldStart) (win st) of
           (False, w) \<Rightarrow> Inr (st\<lparr>win := w, out := out st @ [AddrError (LinePlus0 oldStart)]\<rparr>)
         | (True, w) \<Rightarrow>
             (case findLines new newStart newEnd of
                Inl p \<Rightarrow> Inl p
              | Inr d \<Rightarrow> Inr (st\<lparr>win := win_Write_data d w\<rparr>)))
      else if op = CHR ''c'' then
        (case win_Addr (LineRange oldStart oldEnd) (win st) of
           (False, w) \<Rightarrow> Inr (st\<lparr>win := w, out := out st @ [AddrError (LineRange oldStart oldEnd)]\<rparr>)
         | (True, w) \<Rightarrow>
             (case findLines new newStart newEnd of
                Inl p \<Rightarrow> Inl p
              | Inr d \<Rightarrow> Inr (st\<lparr>win := win_Write_data d w\<rparr>)))
      else if op = CHR ''d'' then
        (case win_Addr (LineRange oldStart oldEnd) (win st) of
           (False, w) \<Rightarrow> Inr (st\<lparr>win := w, out := out st @ [AddrError (LineRange oldStart oldEnd)]\<rparr>)
         | (True, w) \<Rightarrow> Inr (st\<lparr>win := win_Write_data [] w\<rparr>))
      else Inr st)"

text \<open>One turn of the loop: the state after it, and whether the loop goes on.\<close>

datatype 'a flow = Continue 'a | Break 'a

definition diff_line :: "string \<Rightarrow> string \<Rightarrow> state \<Rightarrow> panic + state flow" where
  "diff_line new line st =
     (case diff_header line of
        (Ignored, msgs) \<Rightarrow> Inr (Continue st)
      | (Unparseable, msgs) \<Rightarrow> Inr (Break (st\<lparr>out := out st @ msgs\<rparr>))
      | (Hunk op oldStart oldEnd newStart newEnd, msgs) \<Rightarrow>
          let st1 = st\<lparr>out := out st @ msgs\<rparr> in
          if oldStart = 0 \<or> newStart = 0 then Inr (Continue st1)
          else
            (case apply_hunk new op oldStart oldEnd newStart newEnd st1 of
               Inl p \<Rightarrow> Inl p
             | Inr st2 \<Rightarrow> Inr (Continue st2)))"

text \<open>
  \<^verbatim>\<open>for i := len(diffLines) - 1; i >= 0; i-- { line := diffLines[i]; ... }\<close>
  The lines are given in the order the loop visits them, \<^verbatim>\<open>diffLines[len(diffLines)-1]\<close> first.
\<close>

fun apply_diff :: "string \<Rightarrow> string list \<Rightarrow> state \<Rightarrow> panic + state" where
  "apply_diff new [] st = Inr st"
| "apply_diff new (line # rest) st =
     (case diff_line new line st of
        Inl p \<Rightarrow> Inl p
      | Inr (Break st') \<Rightarrow> Inr st'
      | Inr (Continue st') \<Rightarrow> apply_diff new rest st')"

text \<open>
  \<^verbatim>\<open>reformat\<close>. The function \<^verbatim>\<open>readImports\<close> of the package is not in \<^verbatim>\<open>main.go\<close>: it is a
  parameter, with \<open>None\<close> for an error. \<^verbatim>\<open>w.ReadAll("body")\<close> returns the body of the window.
  The deferred \<^verbatim>\<open>w.CloseFiles()\<close> and \<^verbatim>\<open>os.Remove(tmp)\<close> do not touch the body and are left out.
\<close>

definition log_msg :: "message \<Rightarrow> state \<Rightarrow> state" where
  "log_msg m st = st\<lparr>out := out st @ [m]\<rparr>"

definition reformat :: "(string \<Rightarrow> string option) \<Rightarrow> env \<Rightarrow> state \<Rightarrow> panic + state" where
  "reformat readImports e st =
     (if open_fails e then Inr (log_msg OpenError st)
      else
        (case file_read e of
           None \<Rightarrow> Inr st
         | Some old \<Rightarrow>
             let new = fmt_out e in
             if fmt_fails e then
               (if strings_Contains new ''fatal error''
                then Inr (log_msg (FormatterFatal new) st)
                else Inr (log_msg (FormatterOutput new) st))
             else if old = new then Inr st
             else if \<not> dofmt e then
               (case readImports old of
                  None \<Rightarrow> Inr st
                | Some oldTop \<Rightarrow>
                    (case readImports new of
                       None \<Rightarrow> Inr st
                     | Some newTop \<Rightarrow>
                         if oldTop = newTop then Inr st
                         else
                           let w = snd (win_Addr (Rune0 (RuneCount oldTop)) (win st))
                           in Inr (st\<lparr>win := win_Write_data newTop w\<rparr>)))
             else if tempfile_fails e then Inr (log_msg TempFileError st)
             else if tempwrite_fails e then Inr (log_msg TempWriteError st)
             else
               let diff = diff_out e in
               if readall_fails e then Inr (log_msg ReadAllError st)
               else
                 let latest = body (win st) in
                 if old \<noteq> latest then Inr (log_msg SkippedUpdate st)
                 else
                   let st1 = st\<lparr>win := win_Write_ctl ''nomark'' (win_Write_ctl ''mark'' (win st))\<rparr>;
                       diffLines = strings_Split diff
                   in apply_diff new (rev diffLines) st1))"


section \<open>Notions used to state the properties\<close>

text \<open>
  A span text parses when the whole of it is an integer, or when it has the form \<open>A,B\<close> with
  both \<open>A\<close> and \<open>B\<close> integers.
\<close>

definition span_parses :: "string \<Rightarrow> bool" where
  "span_parses t =
     (Atoi t \<noteq> None \<or>
      (\<exists>i<length t. t ! i = CHR '','' \<and> Atoi (take i t) \<noteq> None \<and> Atoi (drop (Suc i) t) \<noteq> None))"

text \<open>
  A content line of the diff: an empty line, or a line that starts with \<^verbatim>\<open><\<close>, \<^verbatim>\<open>-\<close> or \<^verbatim>\<open>>\<close>.
\<close>

definition content_line :: "string \<Rightarrow> bool" where
  "content_line line =
     (line = [] \<or> hd line = CHR ''<'' \<or> hd line = CHR ''-'' \<or> hd line = CHR ''>'')"

text \<open>
  The old-document start line that a request \<^verbatim>\<open>w.Addr\<close> of the loop names, and those of a
  sequence of requests, in order.
\<close>

fun addr_line :: "wcall \<Rightarrow> int option" where
  "addr_line (Addr (LinePlus0 n)) = Some n"
| "addr_line (Addr (LineRange m n)) = Some m"
| "addr_line _ = None"

definition addr_lines :: "wcall list \<Rightarrow> int list" where
  "addr_lines cs = List.map_filter addr_line cs"

text \<open>
  The old start line of a line of the diff that is a hunk header with both starts different
  from 0, and those of the lines of a diff, in the order of the diff.
\<close>

definition hunk_start :: "string \<Rightarrow> int option" where
  "hunk_start line =
     (case fst (diff_header line) of
        Hunk op oldStart oldEnd newStart newEnd \<Rightarrow>
          if oldStart = 0 \<or> newStart = 0 then None else Some oldStart
      | _ \<Rightarrow> None)"

definition hunk_starts :: "string list \<Rightarrow> int list" where
  "hunk_starts ls = List.map_filter hunk_start ls"

text \<open>
  A window just opened on a text, the state of the program before it has printed anything, and
  the answers of an environment in which every step succeeds.
\<close>

definition window_of :: "string \<Rightarrow> window" where
  "window_of b = \<lparr>body = b, q0 = 0, q1 = 0, calls = []\<rparr>"

definition initial :: "string \<Rightarrow> state" where
  "initial b = \<lparr>win = window_of b, out = []\<rparr>"

definition run_env :: "bool \<Rightarrow> string \<Rightarrow> string \<Rightarrow> string \<Rightarrow> env" where
  "run_env f old new diff =
     \<lparr>dofmt = f, open_fails = False, file_read = Some old, fmt_out = new, fmt_fails = False,
      tempfile_fails = False, tempwrite_fails = False, diff_out = diff, readall_fails = False\<rparr>"

text \<open>
  Modelled from the spec: \<^verbatim>\<open>readImports\<close> is a function of the package that is not in
  \<^verbatim>\<open>main.go\<close>. Where a concrete rule is needed to run \<open>reformat\<close>, the delimiter rule of
  scenario 5 of the specification is used: the top region ends with the first blank line. The
  runs below are on Go files in which the first blank line is the one after the imports.
\<close>

fun top_region :: "string \<Rightarrow> string" where
  "top_region (c # d # cs) =
     (if c = newline \<and> d = newline then [c, d] else c # top_region (d # cs))"
| "top_region cs = cs"

definition first_blank_line :: "string \<Rightarrow> string option" where
  "first_blank_line s = Some (top_region s)"

text \<open>
  A byte sequence made of whole characters: no lead byte announces more continuation bytes
  than follow it. Every ASCII text and every well-formed UTF-8 text is one.
\<close>

fun whole_runes :: "string \<Rightarrow> bool" where
  "whole_runes [] = True"
| "whole_runes (c # cs) = (cont_needed c \<le> length cs \<and> whole_runes (drop (cont_bytes c cs) cs))"

text \<open>
  A text made of whole lines: each line is free of newlines and is followed by one. The headers of
  the lines of a diff, content lines left out, in the order of the diff.
\<close>

definition unlines :: "string list \<Rightarrow> string" where
  "unlines ls = concat (map (\<lambda>l. l @ [newline]) ls)"

definition headers_of :: "string list \<Rightarrow> header list" where
  "headers_of ls = filter (\<lambda>h. h \<noteq> Ignored) (map (\<lambda>l. fst (diff_header l)) ls)"

text \<open>
  What a line diff of the lines \<open>ols\<close> against the lines \<open>nls\<close> is, in the normal format of
  \<^verbatim>\<open>diff\<close>: \<open>script ols nls i j hs\<close> holds when the hunks \<open>hs\<close>, in ascending order, account for
  every difference between the lines of \<open>ols\<close> after the first \<open>i\<close> and the lines of \<open>nls\<close> after
  the first \<open>j\<close>. Before each hunk come \<open>k\<close> lines that are the same on both sides. Then
  \<^verbatim>\<open>NaM,L\<close> adds the new lines \<open>M\<close> to \<open>L\<close> after the old line \<open>N\<close>; \<^verbatim>\<open>N,OdM\<close> deletes the old lines
  \<open>N\<close> to \<open>O\<close>, which would come after the new line \<open>M\<close>; \<^verbatim>\<open>N,OcM,L\<close> changes the old lines \<open>N\<close> to
  \<open>O\<close> into the new lines \<open>M\<close> to \<open>L\<close>. After the last hunk, the remaining lines are the same.
\<close>

fun script :: "string list \<Rightarrow> string list \<Rightarrow> nat \<Rightarrow> nat \<Rightarrow> header list \<Rightarrow> bool" where
  "script ols nls i j [] = (drop i ols = drop j nls)"
| "script ols nls i j (Hunk op oldStart oldEnd newStart newEnd # hs) =
     (if op = CHR ''a'' then
        (let k = nat oldStart - i in
         int i \<le> oldStart \<and> oldEnd = oldStart \<and> nat oldStart \<le> length ols \<and>
         take k (drop i ols) = take k (drop j nls) \<and>
         newStart = int (j + k) + 1 \<and> newStart \<le> newEnd \<and> nat newEnd \<le> length nls \<and>
         script ols nls (nat oldStart) (nat newEnd) hs)
      else if op = CHR ''d'' then
        (let k = nat oldStart - 1 - i in
         int i < oldStart \<and> oldStart \<le> oldEnd \<and> nat oldEnd \<le> length ols \<and>
         take k (drop i ols) = take k (drop j nls) \<and>
         newStart = int (j + k) \<and> newEnd = newStart \<and>
         script ols nls (nat oldEnd) (j + k) hs)
      else if op = CHR ''c'' then
        (let k = nat oldStart - 1 - i in
         int i < oldStart \<and> oldStart \<le> oldEnd \<and> nat oldEnd \<le> length ols \<and>
         take k (drop i ols) = take k (drop j nls) \<and>
         newStart = int (j + k) + 1 \<and> newStart \<le> newEnd \<and> nat newEnd \<le> length nls \<and>
         script ols nls (nat oldEnd) (nat newEnd) hs)
      else False)"
| "script ols nls i j (h # hs) = False"

text \<open>No hunk of the script has an old start or a new start equal to 0.\<close>

fun no_zero_start :: "header \<Rightarrow> bool" where
  "no_zero_start (Hunk op oldStart oldEnd newStart newEnd) = (oldStart \<noteq> 0 \<and> newStart \<noteq> 0)"
| "no_zero_start h = True"

section \<open>findLines never reads out of range\<close>

lemma loop1_ok:
  "i \<le> length buf \<Longrightarrow> \<exists>j e. findLines_loop1 buf i s en = Inr (j, e) \<and> i \<le> j \<and> j \<le> length buf"
proof (induction buf i s en rule: findLines_loop1.induct)
  case (1 buf i start en)
  note unfold = findLines_loop1.simps [of buf i start en]
  show ?case
  proof (cases "i < length buf \<and> 0 < start")
    case False
    then have "findLines_loop1 buf i start en = Inr (i, en)" using unfold by auto
    then show ?thesis using "1.prems" by simp
  next
    case True
    then have ix: "index_at buf i = Inr (buf ! i)" by (simp add: index_at_def)
    show ?thesis
    proof (cases "buf ! i = newline")
      case nl: True
      from "1.IH"(1)[OF True ix nl] True
      obtain j e where "findLines_loop1 buf (i + 1) (wrap64 (start - 1)) (wrap64 (en - 1)) = Inr (j, e)"
        "i + 1 \<le> j" "j \<le> length buf" by auto
      then show ?thesis using True ix nl unfold by simp
    next
      case nl: False
      from "1.IH"(2)[OF True ix nl] True
      obtain j e where "findLines_loop1 buf (i + 1) start en = Inr (j, e)"
        "i + 1 \<le> j" "j \<le> length buf" by auto
      then show ?thesis using True ix nl unfold by simp
    qed
  qed
qed

lemma loop2_ok:
  "i \<le> length buf \<Longrightarrow> \<exists>j. findLines_loop2 buf i en = Inr j \<and> i \<le> j \<and> j \<le> length buf"
proof (induction buf i en rule: findLines_loop2.induct)
  case (1 buf i en)
  note unfold = findLines_loop2.simps [of buf i en]
  show ?case
  proof (cases "i < length buf \<and> 0 < en")
    case False
    then have "findLines_loop2 buf i en = Inr i" using unfold by auto
    then show ?thesis using "1.prems" by simp
  next
    case True
    then have ix: "index_at buf i = Inr (buf ! i)" by (simp add: index_at_def)
    show ?thesis
    proof (cases "buf ! i = newline")
      case nl: True
      from "1.IH"(1)[OF True ix nl] True
      obtain j where "findLines_loop2 buf (i + 1) (wrap64 (en - 1)) = Inr j"
        "i + 1 \<le> j" "j \<le> length buf" by auto
      then show ?thesis using True ix nl unfold by simp
    next
      case nl: False
      from "1.IH"(2)[OF True ix nl] True
      obtain j where "findLines_loop2 buf (i + 1) en = Inr j"
        "i + 1 \<le> j" "j \<le> length buf" by auto
      then show ?thesis using True ix nl unfold by simp
    qed
  qed
qed

lemma findLines_bounds_ok:
  "\<exists>a b. findLines_bounds buf s e = Inr (a, b) \<and> a \<le> b \<and> b \<le> length buf"
proof -
  obtain a e1 where l1: "findLines_loop1 buf 0 (wrap64 (s - 1)) e = Inr (a, e1)" "a \<le> length buf"
    using loop1_ok [of 0 buf "wrap64 (s - 1)" e] by auto
  obtain b where l2: "findLines_loop2 buf a e1 = Inr b" "a \<le> b" "b \<le> length buf"
    using loop2_ok [OF l1(2), of e1] by auto
  show ?thesis using l1 l2 by (simp add: findLines_bounds_def)
qed


lemma findLines_slice:
  "\<exists>a b. findLines_bounds buf s e = Inr (a, b) \<and> a \<le> b \<and> b \<le> length buf \<and>
      findLines buf s e = Inr (take (b - a) (drop a buf))"
proof -
  obtain a b where "findLines_bounds buf s e = Inr (a, b)" "a \<le> b" "b \<le> length buf"
    using findLines_bounds_ok by blast
  then show ?thesis by (simp add: findLines_def slice_def)
qed

lemma findLines_Inr: "\<exists>d. findLines new s e = Inr d"
  using findLines_slice [of new s e] by blast

text \<open>
  C10. For every byte buffer and every pair of integers \<open>start\<close> and \<open>en\<close> (zero, negative,
  \<open>start\<close> above \<open>en\<close>, beyond the number of lines, and the values at which the decrements wrap
  around), \<open>findLines\<close> makes no access out of range: its two loops and its slice expression
  return normally, with \<open>0 \<le> startByte \<le> endByte \<le> len(text)\<close>, and the result is the
  contiguous part \<open>text[startByte:endByte]\<close> of the buffer.
\<close>

theorem findLines_total:
  "\<exists>startByte endByte.
      findLines_bounds buf start en = Inr (startByte, endByte) \<and>
      0 \<le> startByte \<and> startByte \<le> endByte \<and> endByte \<le> length buf \<and>
      findLines buf start en = Inr (take (endByte - startByte) (drop startByte buf))"
  using findLines_slice [of buf start en] by simp

section \<open>findLines meets the contract of extractLines\<close>

lemma wrap64_id: "MinInt64 \<le> x \<Longrightarrow> x \<le> MaxInt64 \<Longrightarrow> wrap64 x = x"
  by (simp add: wrap64_def MinInt64_def MaxInt64_def)

lemma skipLines_le: "skipLines buf k \<le> length buf"
  by (induction buf k rule: skipLines.induct) auto

lemma skipLines_Nil [simp]: "skipLines [] k = 0"
  by (cases k) auto

lemma loop1_spec:
  "i \<le> length buf \<Longrightarrow> 0 \<le> s \<Longrightarrow> s \<le> MaxInt64 \<Longrightarrow> MinInt64 \<le> e - s \<Longrightarrow> e \<le> MaxInt64 \<Longrightarrow>
   findLines_loop1 buf i s e =
     Inr (i + skipLines (drop i buf) (nat s),
          e - min s (int (count_list (drop i buf) newline)))"
proof (induction buf i s e rule: findLines_loop1.induct)
  case (1 buf i start en)
  note unfold = findLines_loop1.simps [of buf i start en]
  show ?case
  proof (cases "i < length buf \<and> 0 < start")
    case False
    then have r: "findLines_loop1 buf i start en = Inr (i, en)" using unfold by auto
    from False "1.prems" have "i = length buf \<or> start = 0" by auto
    then show ?thesis using r "1.prems" by auto
  next
    case True
    then have ix: "index_at buf i = Inr (buf ! i)" by (simp add: index_at_def)
    from True have dr: "drop i buf = buf ! i # drop (Suc i) buf"
      by (simp add: Cons_nth_drop_Suc)
    from True obtain k where k: "nat start = Suc k" "k = nat (start - 1)"
      by (cases "nat start") auto
    show ?thesis
    proof (cases "buf ! i = newline")
      case nl: True
      have w1: "wrap64 (start - 1) = start - 1" using True "1.prems"
        by (intro wrap64_id) (auto simp: MinInt64_def MaxInt64_def)
      have w2: "wrap64 (en - 1) = en - 1" using True "1.prems"
        by (intro wrap64_id) (auto simp: MinInt64_def MaxInt64_def)
      have "findLines_loop1 buf (i + 1) (wrap64 (start - 1)) (wrap64 (en - 1)) =
         Inr (i + 1 + skipLines (drop (i + 1) buf) (nat (wrap64 (start - 1))),
           wrap64 (en - 1) - min (wrap64 (start - 1)) (int (count_list (drop (i + 1) buf) newline)))"
        using True "1.prems" unfolding w1 w2
        by (intro "1.IH"(1)[OF True ix nl, unfolded w1 w2]) auto
      then show ?thesis using True ix nl unfold dr k w1 w2 by simp
    next
      case nl: False
      have "findLines_loop1 buf (i + 1) start en =
         Inr (i + 1 + skipLines (drop (i + 1) buf) (nat start),
           en - min start (int (count_list (drop (i + 1) buf) newline)))"
        using True "1.prems" by (intro "1.IH"(2)[OF True ix nl]) auto
      then show ?thesis using True ix nl unfold dr k by simp
    qed
  qed
qed

lemma loop2_spec:
  "i \<le> length buf \<Longrightarrow> e \<le> MaxInt64 \<Longrightarrow>
   findLines_loop2 buf i e = Inr (i + skipLines (drop i buf) (nat e))"
proof (induction buf i e rule: findLines_loop2.induct)
  case (1 buf i en)
  note unfold = findLines_loop2.simps [of buf i en]
  show ?case
  proof (cases "i < length buf \<and> 0 < en")
    case False
    then have r: "findLines_loop2 buf i en = Inr i" using unfold by auto
    from False "1.prems" have "i = length buf \<or> nat en = 0" by auto
    then show ?thesis using r by auto
  next
    case True
    then have ix: "index_at buf i = Inr (buf ! i)" by (simp add: index_at_def)
    from True have dr: "drop i buf = buf ! i # drop (Suc i) buf"
      by (simp add: Cons_nth_drop_Suc)
    from True obtain k where k: "nat en = Suc k" "k = nat (en - 1)"
      by (cases "nat en") auto
    show ?thesis
    proof (cases "buf ! i = newline")
      case nl: True
      have w2: "wrap64 (en - 1) = en - 1" using True "1.prems"
        by (intro wrap64_id) (auto simp: MinInt64_def MaxInt64_def)
      have "findLines_loop2 buf (i + 1) (wrap64 (en - 1)) =
         Inr (i + 1 + skipLines (drop (i + 1) buf) (nat (wrap64 (en - 1))))"
        using True "1.prems" unfolding w2
        by (intro "1.IH"(1)[OF True ix nl, unfolded w2]) auto
      then show ?thesis using True ix nl unfold dr k w2 by simp
    next
      case nl: False
      have "findLines_loop2 buf (i + 1) en =
         Inr (i + 1 + skipLines (drop (i + 1) buf) (nat en))"
        using True "1.prems" by (intro "1.IH"(2)[OF True ix nl]) auto
      then show ?thesis using True ix nl unfold dr k by simp
    qed
  qed
qed


lemma skipLines_add:
  "skipLines buf (j + m) = skipLines buf j + skipLines (drop (skipLines buf j) buf) m"
  by (induction buf j rule: skipLines.induct) auto

lemma skipLines_all:
  "count_list buf newline < k \<Longrightarrow> skipLines buf k = length buf"
  by (induction buf k rule: skipLines.induct) (auto split: if_splits)

lemma findLines_bounds_spec:
  assumes "1 \<le> s" "s \<le> MaxInt64" "MinInt64 \<le> e - (s - 1)" "e \<le> MaxInt64"
  shows "findLines_bounds buf s e =
     Inr (byteOffsetOfLine buf (nat s),
          if e < s then byteOffsetOfLine buf (nat s) else byteOffsetOfLine buf (nat e + 1))"
proof -
  let ?a = "skipLines buf (nat (s - 1))"
  let ?n = "int (count_list buf newline)"
  have w: "wrap64 (s - 1) = s - 1"
    using assms by (intro wrap64_id) (auto simp: MinInt64_def MaxInt64_def)
  have l1: "findLines_loop1 buf 0 (wrap64 (s - 1)) e = Inr (?a, e - min (s - 1) ?n)"
    unfolding w using assms loop1_spec [of 0 buf "s - 1" e]
    by (simp add: MinInt64_def MaxInt64_def)
  have l2: "findLines_loop2 buf ?a (e - min (s - 1) ?n) =
      Inr (?a + skipLines (drop ?a buf) (nat (e - min (s - 1) ?n)))"
    using assms by (intro loop2_spec) (auto simp: skipLines_le)
  have off: "byteOffsetOfLine buf (nat s) = ?a"
    using assms by (simp add: byteOffsetOfLine_def nat_diff_distrib)
  have b: "?a + skipLines (drop ?a buf) (nat (e - min (s - 1) ?n)) =
      (if e < s then ?a else skipLines buf (nat e))"
  proof (cases "?n < s - 1")
    case True
    then have full: "?a = length buf" by (intro skipLines_all) auto
    from True have "\<not> e < s \<Longrightarrow> skipLines buf (nat e) = length buf"
      by (intro skipLines_all) auto
    then show ?thesis using full by auto
  next
    case False
    then have m: "min (s - 1) ?n = s - 1" by simp
    show ?thesis
    proof (cases "e < s")
      case True
      then show ?thesis unfolding m by simp
    next
      case ge: False
      then have "nat e = nat (s - 1) + nat (e - (s - 1))" using assms by auto
      then have "skipLines buf (nat e) = ?a + skipLines (drop ?a buf) (nat (e - (s - 1)))"
        using skipLines_add [of buf "nat (s - 1)" "nat (e - (s - 1))"] by simp
      then show ?thesis using ge unfolding m by simp
    qed
  qed
  show ?thesis
    unfolding findLines_bounds_def l1 using l2 b off
    by (simp add: byteOffsetOfLine_def)
qed


lemma findLines_start_not_positive:
  assumes "MinInt64 < s" "s \<le> 0" "e \<le> 0"
  shows "findLines buf s e = Inr []"
proof -
  have w: "wrap64 (s - 1) = s - 1"
    using assms by (intro wrap64_id) (auto simp: MinInt64_def MaxInt64_def)
  have l1: "findLines_loop1 buf 0 (wrap64 (s - 1)) e = Inr (0, e)"
    unfolding w using assms findLines_loop1.simps [of buf 0 "s - 1" e] by simp
  have l2: "findLines_loop2 buf 0 e = Inr 0"
    using assms findLines_loop2.simps [of buf 0 e] by simp
  show ?thesis
    by (simp add: findLines_def findLines_bounds_def l1 l2 slice_def)
qed

lemma findLines_lines:
  assumes "1 \<le> s" "s \<le> MaxInt64" "MinInt64 \<le> e - (s - 1)" "e \<le> MaxInt64"
  shows "findLines buf s e =
     Inr (if e < s then []
          else take (byteOffsetOfLine buf (nat e + 1) - byteOffsetOfLine buf (nat s))
                 (drop (byteOffsetOfLine buf (nat s)) buf))"
proof -
  have mono: "byteOffsetOfLine buf (nat s) \<le> byteOffsetOfLine buf (nat e + 1)" if "s \<le> e"
  proof -
    from that assms have "nat e = nat s - 1 + (nat e - (nat s - 1))"
      by auto
    then show ?thesis
      using skipLines_add [of buf "nat s - 1" "nat e - (nat s - 1)"]
      by (simp add: byteOffsetOfLine_def)
  qed
  show ?thesis
    using findLines_bounds_spec [OF assms, of buf] mono
    by (auto simp: findLines_def slice_def byteOffsetOfLine_def skipLines_le)
qed

text \<open>
  C5. For every byte buffer and line numbers \<open>1 \<le> startLine \<le> endLine\<close>, \<open>findLines\<close> returns the
  bytes from the start of \<open>startLine\<close> to the start of \<open>endLine + 1\<close> (the end of the buffer when
  there is no such line), which is \<open>extractLines\<close>; and for \<open>endLine < startLine\<close> it returns the
  empty byte sequence. Line numbers are values of a Go \<open>int\<close>; the second part holds for every
  pair of them, negative ones included, for which \<open>endLine - (startLine - 1)\<close> is a value of a Go
  \<open>int\<close> as well, so that the decrements of \<open>end\<close> do not wrap around.
\<close>

theorem findLines_extractLines:
  "(1 \<le> startLine \<and> startLine \<le> MaxInt64 \<and> 0 \<le> endLine \<and> endLine \<le> MaxInt64 \<longrightarrow>
      findLines buf startLine endLine = Inr (extractLines buf (nat startLine) (nat endLine))) \<and>
   (1 \<le> startLine \<and> startLine \<le> endLine \<and> endLine \<le> MaxInt64 \<longrightarrow>
      findLines buf startLine endLine =
        Inr (take (byteOffsetOfLine buf (nat endLine + 1) - byteOffsetOfLine buf (nat startLine))
               (drop (byteOffsetOfLine buf (nat startLine)) buf))) \<and>
   (MinInt64 \<le> endLine \<and> endLine < startLine \<and> startLine \<le> MaxInt64 \<and>
    MinInt64 \<le> endLine - (startLine - 1) \<longrightarrow>
      findLines buf startLine endLine = Inr [])"
proof -
  have a: "findLines buf startLine endLine = Inr (extractLines buf (nat startLine) (nat endLine))"
    if "1 \<le> startLine" "startLine \<le> MaxInt64" "0 \<le> endLine" "endLine \<le> MaxInt64"
  proof -
    from that have "MinInt64 \<le> endLine - (startLine - 1)"
      by (simp add: MinInt64_def MaxInt64_def)
    from findLines_lines [OF that(1,2) this that(4), of buf] that show ?thesis
      by (auto simp: extractLines_def)
  qed
  have b: "findLines buf startLine endLine =
        Inr (take (byteOffsetOfLine buf (nat endLine + 1) - byteOffsetOfLine buf (nat startLine))
               (drop (byteOffsetOfLine buf (nat startLine)) buf))"
    if "1 \<le> startLine" "startLine \<le> endLine" "endLine \<le> MaxInt64"
  proof -
    from that have "MinInt64 \<le> endLine - (startLine - 1)" "startLine \<le> MaxInt64"
      by (simp_all add: MinInt64_def MaxInt64_def)
    from findLines_lines [OF that(1) this(2) this(1) that(3), of buf] that show ?thesis
      by simp
  qed
  have c: "findLines buf startLine endLine = Inr []"
    if "MinInt64 \<le> endLine" "endLine < startLine" "startLine \<le> MaxInt64"
      "MinInt64 \<le> endLine - (startLine - 1)"
  proof (cases "1 \<le> startLine")
    case True
    from that have "endLine \<le> MaxInt64" by simp
    from findLines_lines [OF True that(3) that(4) this, of buf] that show ?thesis
      by simp
  next
    case False
    with that show ?thesis
      by (intro findLines_start_not_positive) auto
  qed
  from a b c show ?thesis by blast
qed

theorem findLines_extractLines_witness:
  "1 \<le> (2::int) \<and> (2::int) \<le> 3 \<and> (3::int) \<le> MaxInt64 \<and>
   findLines ''ab\<newline>cd\<newline>ef\<newline>x'' 2 3 = Inr ''cd\<newline>ef\<newline>'' \<and>
   findLines ''ab\<newline>cd\<newline>ef\<newline>x'' 4 5 = Inr ''x'' \<and>
   MinInt64 \<le> (1::int) \<and> (1::int) < 2 \<and> (2::int) \<le> MaxInt64 \<and> MinInt64 \<le> (1::int) - (2 - 1) \<and>
   findLines ''ab\<newline>cd\<newline>ef\<newline>x'' 2 1 = Inr []"
proof -
  have e: "extractLines ''ab\<newline>cd\<newline>ef\<newline>x'' (nat 2) (nat 3) = ''cd\<newline>ef\<newline>''"
    "extractLines ''ab\<newline>cd\<newline>ef\<newline>x'' (nat 4) (nat 5) = ''x''"
    "extractLines ''ab\<newline>cd\<newline>ef\<newline>x'' (nat 2) (nat 1) = []"
    by code_simp+
  have h: "1 \<le> (2::int)" "(2::int) \<le> 3" "(3::int) \<le> MaxInt64" "(2::int) \<le> MaxInt64" "0 \<le> (3::int)"
    "1 \<le> (4::int)" "(4::int) \<le> MaxInt64" "0 \<le> (5::int)" "(5::int) \<le> MaxInt64"
    "MinInt64 \<le> (1::int)" "(1::int) < 2" "MinInt64 \<le> (1::int) - (2 - 1)"
    by (simp_all add: MaxInt64_def MinInt64_def)
  show ?thesis
    using findLines_extractLines [of 2 3 "''ab\<newline>cd\<newline>ef\<newline>x''"]
      findLines_extractLines [of 4 5 "''ab\<newline>cd\<newline>ef\<newline>x''"]
      findLines_extractLines [of 2 1 "''ab\<newline>cd\<newline>ef\<newline>x''"] e h
    by simp
qed

text \<open>
  Outside the line numbers, where \<open>endLine - (startLine - 1)\<close> is below the least \<open>int\<close>, the
  decrements of \<open>end\<close> wrap around and the result need not be empty.
\<close>

lemma findLines_wraps_around:
  "findLines ''ab\<newline>cd\<newline>x'' 3 (MinInt64 + 1) = Inr ''x''"
  by code_simp

section \<open>The three cases of parseSpan\<close>

lemma strings_Index_None: "strings_Index t c = None \<longleftrightarrow> c \<notin> set t"
  by (induction t) auto

lemma strings_Index_Some:
  "strings_Index t c = Some i \<longleftrightarrow> i < length t \<and> t ! i = c \<and> c \<notin> set (take i t)"
proof (induction t arbitrary: i)
  case Nil
  then show ?case by simp
next
  case (Cons x t)
  show ?case
  proof (cases "x = c")
    case True
    then show ?thesis by (cases i) auto
  next
    case False
    then show ?thesis using Cons.IH by (cases i) auto
  qed
qed

lemma is_digit_comma: "\<not> is_digit (CHR '','')"
  by (simp add: is_digit_def)

lemma Atoi_no_comma: "Atoi t = Some n \<Longrightarrow> CHR '','' \<notin> set t"
proof
  assume a: "Atoi t = Some n" and m: "CHR '','' \<in> set t"
  from a obtain c cs where t: "t = c # cs" by (cases t) (auto simp: Atoi_def)
  let ?ds = "if c = CHR ''+'' \<or> c = CHR ''-'' then cs else t"
  from a t have d: "list_all is_digit ?ds"
    by (auto simp: Atoi_def Let_def split: if_splits)
  from m t have "CHR '','' \<in> set ?ds" by (auto split: if_splits)
  with d is_digit_comma show False by (auto simp: list_all_iff)
qed

lemma parseSpan_whole: "Atoi t = Some n \<Longrightarrow> parseSpan t = ((n, n), [])"
  using Atoi_no_comma [of t n] by (simp add: parseSpan_def strings_Index_None [THEN iffD2])

lemma parseSpan_pair:
  assumes "Atoi A = Some a" "Atoi B = Some b"
  shows "parseSpan (A @ '','' @ B) = ((a, b), [])"
proof -
  have "strings_Index (A @ '','' @ B) (CHR '','') = Some (length A)"
    using Atoi_no_comma [OF assms(1)] by (simp add: strings_Index_Some)
  then show ?thesis using assms by (simp add: parseSpan_def)
qed

lemma parseSpan_other:
  assumes "\<not> span_parses t"
  shows "parseSpan t = ((0, 0), [CannotParseSpan t])"
proof (cases "strings_Index t (CHR '','')")
  case None
  then show ?thesis using assms by (auto simp: parseSpan_def span_parses_def)
next
  case (Some i)
  then have "i < length t" "t ! i = CHR '',''" by (simp_all add: strings_Index_Some)
  with assms have "Atoi (take i t) = None \<or> Atoi (drop (Suc i) t) = None"
    by (auto simp: span_parses_def)
  then show ?thesis using Some by (auto simp: parseSpan_def split: option.splits)
qed

lemma parseSpan_parses:
  assumes "span_parses t"
  shows "snd (parseSpan t) = []"
proof (cases "Atoi t")
  case (Some n)
  then show ?thesis by (simp add: parseSpan_whole)
next
  case None
  with assms obtain i a b where i: "i < length t" "t ! i = CHR '',''"
    "Atoi (take i t) = Some a" "Atoi (drop (Suc i) t) = Some b"
    by (auto simp: span_parses_def)
  then have "t = take i t @ '','' @ drop (Suc i) t"
    using id_take_nth_drop [of i t] by simp
  then show ?thesis using parseSpan_pair [OF i(3) i(4)] by simp
qed

section \<open>The lines of the diff\<close>

lemma scan_op_takeWhile:
  "j \<le> length line \<Longrightarrow>
   scan_op line j = j + length (takeWhile (\<lambda>c. \<not> is_op c) (drop j line))"
proof (induction line j rule: scan_op.induct)
  case (1 line j)
  note unfold = scan_op.simps [of line j]
  show ?case
  proof (cases "j < length line")
    case False
    then have "scan_op line j = j" using unfold by simp
    then show ?thesis using "1.prems" False by simp
  next
    case True
    then have dr: "drop j line = line ! j # drop (Suc j) line"
      by (simp add: Cons_nth_drop_Suc)
    show ?thesis
    proof (cases "is_op (line ! j)")
      case op: True
      then have "scan_op line j = j" using unfold by simp
      then show ?thesis using op dr by simp
    next
      case False
      with True "1.IH" have "scan_op line (j + 1) =
          j + 1 + length (takeWhile (\<lambda>c. \<not> is_op c) (drop (j + 1) line))" by simp
      moreover have "scan_op line j = scan_op line (j + 1)" using unfold True False by simp
      ultimately show ?thesis using dr False by simp
    qed
  qed
qed

lemma scan_op_0: "scan_op line 0 = length (takeWhile (\<lambda>c. \<not> is_op c) line)"
  using scan_op_takeWhile [of 0 line] by simp

lemma scan_op_le: "scan_op line 0 \<le> length line"
  by (simp add: scan_op_0 length_takeWhile_le)

lemma length_takeWhile_all:
  "length (takeWhile P xs) = length xs \<longleftrightarrow> (\<forall>x\<in>set xs. P x)"
  by (induction xs) auto

lemma scan_op_none: "scan_op line 0 \<ge> length line \<longleftrightarrow> (\<forall>c\<in>set line. \<not> is_op c)"
  using scan_op_le [of line] length_takeWhile_all [of "\<lambda>c. \<not> is_op c" line]
  by (auto simp: scan_op_0)

lemma scan_op_found: "scan_op line 0 < length line \<Longrightarrow> is_op (line ! scan_op line 0)"
  using nth_length_takeWhile [of "\<lambda>c. \<not> is_op c" line] by (simp add: scan_op_0)

lemma diff_header_content: "content_line line \<Longrightarrow> diff_header line = (Ignored, [])"
  by (cases line) (auto simp: content_line_def diff_header_def)

lemma diff_header_unparseable:
  "\<not> content_line line \<Longrightarrow> \<forall>c\<in>set line. \<not> is_op c \<Longrightarrow>
   diff_header line = (Unparseable, [CannotParseDiffLine line])"
  using scan_op_none [of line]
  by (cases line) (auto simp: content_line_def diff_header_def Let_def)

lemma diff_header_hunk:
  assumes "\<not> content_line line" "\<exists>c\<in>set line. is_op c"
  shows "diff_header line =
     (Hunk (line ! scan_op line 0)
        (fst (fst (parseSpan (take (scan_op line 0) line))))
        (snd (fst (parseSpan (take (scan_op line 0) line))))
        (fst (fst (parseSpan (drop (scan_op line 0 + 1) line))))
        (snd (fst (parseSpan (drop (scan_op line 0 + 1) line)))),
      snd (parseSpan (take (scan_op line 0) line)) @
      snd (parseSpan (drop (scan_op line 0 + 1) line)))"
proof -
  from assms(2) have "\<not> scan_op line 0 \<ge> length line" using scan_op_none [of line] by blast
  then show ?thesis using assms(1)
    by (cases line) (auto simp: content_line_def diff_header_def Let_def)
qed

section \<open>Lines that are passed over, lines that stop the loop\<close>

lemma parseSpan_log_iff: "snd (parseSpan t) = [] \<longleftrightarrow> span_parses t"
proof
  assume e: "snd (parseSpan t) = []"
  show "span_parses t"
  proof (rule ccontr)
    assume "\<not> span_parses t"
    then have "snd (parseSpan t) = [CannotParseSpan t]" by (simp add: parseSpan_other)
    with e show False by simp
  qed
next
  assume "span_parses t"
  then show "snd (parseSpan t) = []" by (rule parseSpan_parses)
qed

lemma span_parses_iff:
  "span_parses t \<longleftrightarrow>
     (\<exists>n. Atoi t = Some n) \<or>
     (\<exists>A B a b. t = A @ '','' @ B \<and> Atoi A = Some a \<and> Atoi B = Some b)"
proof
  assume "span_parses t"
  then consider n where "Atoi t = Some n"
    | i a b where "i < length t" "t ! i = CHR '',''" "Atoi (take i t) = Some a"
        "Atoi (drop (Suc i) t) = Some b"
    by (auto simp: span_parses_def)
  then show "(\<exists>n. Atoi t = Some n) \<or>
     (\<exists>A B a b. t = A @ '','' @ B \<and> Atoi A = Some a \<and> Atoi B = Some b)"
  proof cases
    case 1
    then show ?thesis by blast
  next
    case 2
    then have "t = take i t @ '','' @ drop (Suc i) t"
      using id_take_nth_drop [of i t] by simp
    with 2 show ?thesis by blast
  qed
next
  assume "(\<exists>n. Atoi t = Some n) \<or>
     (\<exists>A B a b. t = A @ '','' @ B \<and> Atoi A = Some a \<and> Atoi B = Some b)"
  then show "span_parses t"
  proof
    assume "\<exists>n. Atoi t = Some n"
    then show ?thesis by (auto simp: span_parses_def)
  next
    assume "\<exists>A B a b. t = A @ '','' @ B \<and> Atoi A = Some a \<and> Atoi B = Some b"
    then obtain A B a b where t: "t = A @ '','' @ B" "Atoi A = Some a" "Atoi B = Some b"
      by blast
    then have "length A < length t \<and> t ! length A = CHR '','' \<and>
        Atoi (take (length A) t) \<noteq> None \<and> Atoi (drop (Suc (length A)) t) \<noteq> None"
      by simp
    then show ?thesis unfolding span_parses_def by blast
  qed
qed

lemma diff_line_skip:
  assumes "diff_header line = (Hunk op oldStart oldEnd newStart newEnd, msgs)"
    and "oldStart = 0 \<or> newStart = 0"
  shows "diff_line new line st = Inr (Continue (st\<lparr>out := out st @ msgs\<rparr>))"
  using assms by (auto simp: diff_line_def)

lemma diff_header_msgs:
  assumes "diff_header line = (Hunk op oldStart oldEnd newStart newEnd, msgs)"
  shows "msgs = snd (parseSpan (take (scan_op line 0) line)) @
                snd (parseSpan (drop (scan_op line 0 + 1) line)) \<and>
         oldStart = fst (fst (parseSpan (take (scan_op line 0) line))) \<and>
         newStart = fst (fst (parseSpan (drop (scan_op line 0 + 1) line))) \<and>
         op = line ! scan_op line 0 \<and> scan_op line 0 < length line \<and> \<not> content_line line"
  using assms
  by (cases line) (auto simp: diff_header_def content_line_def Let_def split: if_splits)


text \<open>
  C9, amended. \<open>parseSpan\<close> returns \<open>(n, n)\<close> when the whole text parses as the integer \<open>n\<close>; it
  returns \<open>(a, b)\<close> when the text has the form \<open>A,B\<close> with \<open>A\<close> parsing to \<open>a\<close> and \<open>B\<close> to \<open>b\<close>;
  it returns \<open>(0, 0)\<close> in every other case, and then logs \<open>cannot parse span\<close>. Since a start of
  0 makes the loop pass over the hunk, a hunk header with a span text that does not parse is
  dropped, not silently but with that message in the log: the window receives no request for
  it, the loop does not stop, and the remaining lines are processed.
\<close>

theorem parseSpan_semantics:
  "(Atoi t = Some n \<longrightarrow> parseSpan t = ((n, n), [])) \<and>
   (Atoi A = Some a \<and> Atoi B = Some b \<longrightarrow> parseSpan (A @ '','' @ B) = ((a, b), [])) \<and>
   (\<not> span_parses u \<longrightarrow> parseSpan u = ((0, 0), [CannotParseSpan u])) \<and>
   (span_parses u \<longleftrightarrow>
      (\<exists>n. Atoi u = Some n) \<or>
      (\<exists>A B a b. u = A @ '','' @ B \<and> Atoi A = Some a \<and> Atoi B = Some b)) \<and>
   (\<not> content_line line \<and> scan_op line 0 < length line \<and>
    (\<not> span_parses (take (scan_op line 0) line) \<or>
     \<not> span_parses (drop (scan_op line 0 + 1) line)) \<longrightarrow>
      (\<exists>msgs. msgs \<noteq> [] \<and>
         msgs = snd (parseSpan (take (scan_op line 0) line)) @
                snd (parseSpan (drop (scan_op line 0 + 1) line)) \<and>
         (CannotParseSpan (take (scan_op line 0) line) \<in> set msgs \<or>
          CannotParseSpan (drop (scan_op line 0 + 1) line) \<in> set msgs) \<and>
         diff_line new line st = Inr (Continue (st\<lparr>out := out st @ msgs\<rparr>)) \<and>
         win (st\<lparr>out := out st @ msgs\<rparr>) = win st \<and>
         apply_diff new (line # rest) st =
           apply_diff new rest (st\<lparr>out := out st @ msgs\<rparr>)))"
proof -
  have "\<exists>msgs. msgs \<noteq> [] \<and>
         msgs = snd (parseSpan (take (scan_op line 0) line)) @
                snd (parseSpan (drop (scan_op line 0 + 1) line)) \<and>
         (CannotParseSpan (take (scan_op line 0) line) \<in> set msgs \<or>
          CannotParseSpan (drop (scan_op line 0 + 1) line) \<in> set msgs) \<and>
         diff_line new line st = Inr (Continue (st\<lparr>out := out st @ msgs\<rparr>)) \<and>
         win (st\<lparr>out := out st @ msgs\<rparr>) = win st \<and>
         apply_diff new (line # rest) st =
           apply_diff new rest (st\<lparr>out := out st @ msgs\<rparr>)"
    if c: "\<not> content_line line" and j: "scan_op line 0 < length line"
      and m: "\<not> span_parses (take (scan_op line 0) line) \<or>
           \<not> span_parses (drop (scan_op line 0 + 1) line)"
  proof -
    let ?o = "parseSpan (take (scan_op line 0) line)"
    let ?n = "parseSpan (drop (scan_op line 0 + 1) line)"
    from j have "\<exists>c\<in>set line. is_op c" using scan_op_none [of line] by auto
    from diff_header_hunk [OF c this]
    have h: "diff_header line =
      (Hunk (line ! scan_op line 0) (fst (fst ?o)) (snd (fst ?o)) (fst (fst ?n)) (snd (fst ?n)),
       snd ?o @ snd ?n)" .
    from m have z: "fst (fst ?o) = 0 \<or> fst (fst ?n) = 0"
      using parseSpan_other by auto
    from m have ne: "snd ?o @ snd ?n \<noteq> []"
      using parseSpan_other by auto
    from m have lg: "CannotParseSpan (take (scan_op line 0) line) \<in> set (snd ?o @ snd ?n) \<or>
        CannotParseSpan (drop (scan_op line 0 + 1) line) \<in> set (snd ?o @ snd ?n)"
      using parseSpan_other by auto
    have "diff_line new line st = Inr (Continue (st\<lparr>out := out st @ (snd ?o @ snd ?n)\<rparr>))"
      using h z by (rule diff_line_skip)
    then show ?thesis using ne lg by (intro exI [of _ "snd ?o @ snd ?n"]) simp
  qed
  then show ?thesis
    using parseSpan_whole [of t n] parseSpan_pair [of A a B b] parseSpan_other [of u]
      span_parses_iff [of u]
    by blast
qed

theorem parseSpan_semantics_witness:
  "Atoi ''12'' = Some 12 \<and> parseSpan ''12'' = ((12, 12), []) \<and>
   Atoi ''3'' = Some 3 \<and> Atoi ''5'' = Some 5 \<and> parseSpan (''3'' @ '','' @ ''5'') = ((3, 5), []) \<and>
   \<not> span_parses ''x,5'' \<and> parseSpan ''x,5'' = ((0, 0), [CannotParseSpan ''x,5'']) \<and>
   \<not> content_line ''x,5c7'' \<and> scan_op ''x,5c7'' 0 < length ''x,5c7'' \<and>
   \<not> span_parses (take (scan_op ''x,5c7'' 0) ''x,5c7'') \<and>
   (\<exists>msgs. msgs \<noteq> [] \<and>
      apply_diff ''a\<newline>'' [''x,5c7'', ''1c1''] (initial ''b\<newline>'') =
        apply_diff ''a\<newline>'' [''1c1''] ((initial ''b\<newline>'')\<lparr>out := out (initial ''b\<newline>'') @ msgs\<rparr>))"
proof -
  have h: "Atoi ''12'' = Some 12" "Atoi ''3'' = Some 3" "Atoi ''5'' = Some 5"
    "\<not> span_parses ''x,5''" "\<not> content_line ''x,5c7''" "scan_op ''x,5c7'' 0 < length ''x,5c7''"
    "\<not> span_parses (take (scan_op ''x,5c7'' 0) ''x,5c7'')"
    by code_simp+
  show ?thesis
    using h parseSpan_semantics [of "''12''" 12 "''3''" 3 "''5''" 5 "''x,5''" "''x,5c7''"
        "''a\<newline>''" "initial ''b\<newline>''" "[''1c1'']"]
    by blast
qed

theorem malformed_header_is_logged:
  "parseSpan ''x,5'' = ((0, 0), [CannotParseSpan ''x,5'']) \<and>
   out (initial ''b\<newline>'') = [] \<and>
   diff_line ''a\<newline>'' ''x,5c7'' (initial ''b\<newline>'') =
     Inr (Continue ((initial ''b\<newline>'')\<lparr>out := [CannotParseSpan ''x,5'']\<rparr>))"
  by code_simp

lemma zero_start_passed_over:
  assumes "diff_header line = (Hunk op oldStart oldEnd newStart newEnd, msgs)"
    and "oldStart = 0 \<or> newStart = 0"
  shows "diff_line new line st = Inr (Continue (st\<lparr>out := out st @ msgs\<rparr>)) \<and>
         apply_diff new (line # rest) st = apply_diff new rest (st\<lparr>out := out st @ msgs\<rparr>) \<and>
         (msgs = [] \<longleftrightarrow>
            span_parses (take (scan_op line 0) line) \<and>
            span_parses (drop (scan_op line 0 + 1) line))"
proof -
  have s: "diff_line new line st = Inr (Continue (st\<lparr>out := out st @ msgs\<rparr>))"
    using assms by (rule diff_line_skip)
  have "msgs = snd (parseSpan (take (scan_op line 0) line)) @
                snd (parseSpan (drop (scan_op line 0 + 1) line))"
    using diff_header_msgs [OF assms(1)] by simp
  then have "msgs = [] \<longleftrightarrow>
            span_parses (take (scan_op line 0) line) \<and>
            span_parses (drop (scan_op line 0 + 1) line)"
    by (simp add: parseSpan_log_iff)
  then show ?thesis using s by simp
qed

text \<open>
  C6, amended. A hunk header one of whose span texts does not parse, so that \<open>parseSpan\<close> gives
  \<open>(0, 0)\<close> for it and \<open>oldStart = 0\<close> or \<open>newStart = 0\<close>, is passed over rather than applied: the
  window receives no request for it; the anomaly is logged, by \<open>parseSpan\<close>; and the loop goes
  on with the remaining lines of the diff.
\<close>

theorem unparseable_span_skipped:
  assumes "diff_header line = (Hunk op oldStart oldEnd newStart newEnd, msgs)"
    and "\<not> span_parses (take (scan_op line 0) line) \<or>
         \<not> span_parses (drop (scan_op line 0 + 1) line)"
  shows "(oldStart = 0 \<or> newStart = 0) \<and>
         msgs \<noteq> [] \<and>
         msgs = snd (parseSpan (take (scan_op line 0) line)) @
                snd (parseSpan (drop (scan_op line 0 + 1) line)) \<and>
         diff_line new line st = Inr (Continue (st\<lparr>out := out st @ msgs\<rparr>)) \<and>
         win (st\<lparr>out := out st @ msgs\<rparr>) = win st \<and>
         apply_diff new (line # rest) st = apply_diff new rest (st\<lparr>out := out st @ msgs\<rparr>)"
proof -
  let ?o = "parseSpan (take (scan_op line 0) line)"
  let ?n = "parseSpan (drop (scan_op line 0 + 1) line)"
  have m: "msgs = snd ?o @ snd ?n" "oldStart = fst (fst ?o)" "newStart = fst (fst ?n)"
    using diff_header_msgs [OF assms(1)] by simp_all
  have z: "oldStart = 0 \<or> newStart = 0"
    using assms(2) parseSpan_other unfolding m by auto
  have ne: "msgs \<noteq> []"
    using assms(2) parseSpan_other unfolding m by auto
  show ?thesis
    using zero_start_passed_over [OF assms(1) z, of new st rest] z ne m(1) by simp
qed

theorem unparseable_span_skipped_witness:
  "diff_header ''1,xc3'' = (Hunk (CHR ''c'') 0 0 3 3, [CannotParseSpan ''1,x'']) \<and>
   \<not> span_parses (take (scan_op ''1,xc3'' 0) ''1,xc3'') \<and>
   diff_line ''a\<newline>'' ''1,xc3'' (initial ''b\<newline>'') =
     Inr (Continue ((initial ''b\<newline>'')\<lparr>out := [CannotParseSpan ''1,x'']\<rparr>)) \<and>
   apply_diff ''a\<newline>'' [''1,xc3'', ''9c9''] (initial ''b\<newline>'') =
     apply_diff ''a\<newline>'' [''9c9''] ((initial ''b\<newline>'')\<lparr>out := [CannotParseSpan ''1,x'']\<rparr>)"
proof -
  have h: "diff_header ''1,xc3'' = (Hunk (CHR ''c'') 0 0 3 3, [CannotParseSpan ''1,x''])"
    by code_simp
  have n: "\<not> span_parses (take (scan_op ''1,xc3'' 0) ''1,xc3'')"
    by code_simp
  then have d: "\<not> span_parses (take (scan_op ''1,xc3'' 0) ''1,xc3'') \<or>
      \<not> span_parses (drop (scan_op ''1,xc3'' 0 + 1) ''1,xc3'')"
    by simp
  have o: "out (initial ''b\<newline>'') = []"
    by (simp add: initial_def)
  show ?thesis
    using h n unparseable_span_skipped [OF h d, of "''a\<newline>''" "initial ''b\<newline>''" "[''9c9'']"]
    unfolding o by simp
qed

theorem zero_start_not_logged:
  "diff_header ''0a1'' = (Hunk (CHR ''a'') 0 0 1 1, []) \<and>
   diff_line ''a\<newline>b\<newline>'' ''0a1'' (initial ''b\<newline>'') = Inr (Continue (initial ''b\<newline>'')) \<and>
   out (initial ''b\<newline>'') = []"
  by code_simp

lemma diff_line_Break: "diff_line new l st = Inr (Break s) \<Longrightarrow> fst (diff_header l) = Unparseable"
  by (auto simp: diff_line_def Let_def split: prod.splits header.splits if_splits sum.splits)

text \<open>
  C7, amended. A line of the diff that is not empty, does not start with \<^verbatim>\<open><\<close>, \<^verbatim>\<open>-\<close> or \<^verbatim>\<open>>\<close>,
  and contains none of the letters \<^verbatim>\<open>a\<close>, \<^verbatim>\<open>c\<close>, \<^verbatim>\<open>d\<close> makes the program log
  \<open>cannot parse diff line\<close> and leave the loop: no line of the diff is processed after it and the
  window receives no further request. A line that contains one of these letters never makes
  the program leave the loop.
\<close>

theorem unparseable_line_aborts:
  assumes "\<not> content_line line"
  shows "((\<forall>c\<in>set line. \<not> is_op c) \<longrightarrow>
            diff_line new line st =
              Inr (Break (st\<lparr>out := out st @ [CannotParseDiffLine line]\<rparr>)) \<and>
            apply_diff new (line # rest) st =
              Inr (st\<lparr>out := out st @ [CannotParseDiffLine line]\<rparr>) \<and>
            win (st\<lparr>out := out st @ [CannotParseDiffLine line]\<rparr>) = win st) \<and>
         ((\<exists>c\<in>set line. is_op c) \<longrightarrow> (\<forall>s. diff_line new line st \<noteq> Inr (Break s)))"
proof -
  have 1: "diff_line new line st = Inr (Break (st\<lparr>out := out st @ [CannotParseDiffLine line]\<rparr>)) \<and>
      apply_diff new (line # rest) st = Inr (st\<lparr>out := out st @ [CannotParseDiffLine line]\<rparr>) \<and>
      win (st\<lparr>out := out st @ [CannotParseDiffLine line]\<rparr>) = win st"
    if "\<forall>c\<in>set line. \<not> is_op c"
    using diff_header_unparseable [OF assms that] by (simp add: diff_line_def)
  have 2: "diff_line new line st \<noteq> Inr (Break s)" if "\<exists>c\<in>set line. is_op c" for s
  proof
    assume "diff_line new line st = Inr (Break s)"
    then have "fst (diff_header line) = Unparseable" by (rule diff_line_Break)
    then show False using diff_header_hunk [OF assms that] by simp
  qed
  from 1 2 show ?thesis by blast
qed

theorem unparseable_line_aborts_witness:
  "\<not> content_line ''2,3'' \<and> scan_op ''2,3'' 0 = length ''2,3'' \<and>
   apply_diff ''a\<newline>x\<newline>'' [''2,3'', ''1c1''] (initial ''a\<newline>b\<newline>'') =
     Inr ((initial ''a\<newline>b\<newline>'')\<lparr>out := out (initial ''a\<newline>b\<newline>'') @ [CannotParseDiffLine ''2,3'']\<rparr>) \<and>
   \<not> content_line ''2x3c4'' \<and> is_op (''2x3c4'' ! 3) \<and>
   diff_line ''a\<newline>x\<newline>'' ''2x3c4'' (initial ''a\<newline>b\<newline>'') \<noteq>
     Inr (Break ((initial ''a\<newline>b\<newline>'')\<lparr>out := [CannotParseSpan ''2x3'']\<rparr>))"
proof -
  have h: "\<not> content_line ''2,3''" "\<forall>c\<in>set ''2,3''. \<not> is_op c"
    by code_simp+
  have j: "scan_op ''2,3'' 0 = length ''2,3''"
    by code_simp
  have h': "\<not> content_line ''2x3c4''" "is_op (''2x3c4'' ! 3)"
    by code_simp+
  then have o: "\<exists>c\<in>set ''2x3c4''. is_op c"
    by (simp add: is_op_def)
  show ?thesis
    using h(1) j h' h(2) o
      unparseable_line_aborts [OF h(1), of "''a\<newline>x\<newline>''" "initial ''a\<newline>b\<newline>''" "[''1c1'']"]
      unparseable_line_aborts [OF h'(1), of "''a\<newline>x\<newline>''" "initial ''a\<newline>b\<newline>''" "[]"]
    by simp
qed

theorem malformed_header_does_not_abort:
  "\<not> content_line ''diff: warning'' \<and>
   fst (fst (parseSpan (take (scan_op ''diff: warning'' 0) ''diff: warning''))) = 0 \<and>
   reformat Some
     (run_env True ''a\<newline>b\<newline>c\<newline>'' ''a\<newline>x\<newline>c\<newline>''
        ''2c2\<newline>< b\<newline>---\<newline>> x\<newline>diff: warning'')
     (initial ''a\<newline>b\<newline>c\<newline>'') =
   Inr \<lparr>win = \<lparr>body = ''a\<newline>x\<newline>c\<newline>'', q0 = 4, q1 = 4,
              calls = [WriteCtl ''mark'', WriteCtl ''nomark'', Addr (LineRange 2 2),
                       WriteData ''x\<newline>'']\<rparr>,
        out = [CannotParseSpan [], CannotParseSpan ''iff: warning'']\<rparr>"
  by code_simp

section \<open>A formatter that changes nothing\<close>

text \<open>
  C8. When the window can be opened, the file is read and the formatter succeeds with an output
  equal, byte for byte, to the content of the file, \<open>reformat\<close> returns at once: nothing is
  printed, no diff is computed or parsed, and the window receives no request. (The empty output
  that \<^verbatim>\<open>diff\<close> gives for two identical files would produce no operation and no message
  either.)
\<close>

theorem reformat_noop:
  assumes "\<not> open_fails e" "file_read e = Some old" "\<not> fmt_fails e" "fmt_out e = old"
  shows "reformat readImports e st = Inr st \<and>
         apply_diff new (rev (strings_Split [])) st = Inr st"
  using assms by (simp add: reformat_def diff_line_def diff_header_def)

theorem reformat_noop_witness:
  "\<not> open_fails (run_env True ''a\<newline>'' ''a\<newline>'' []) \<and>
   file_read (run_env True ''a\<newline>'' ''a\<newline>'' []) = Some ''a\<newline>'' \<and>
   \<not> fmt_fails (run_env True ''a\<newline>'' ''a\<newline>'' []) \<and>
   fmt_out (run_env True ''a\<newline>'' ''a\<newline>'' []) = ''a\<newline>'' \<and>
   reformat Some (run_env True ''a\<newline>'' ''a\<newline>'' []) (initial ''a\<newline>'') = Inr (initial ''a\<newline>'')"
proof -
  have h: "\<not> open_fails (run_env True ''a\<newline>'' ''a\<newline>'' [])"
    "file_read (run_env True ''a\<newline>'' ''a\<newline>'' []) = Some ''a\<newline>''"
    "\<not> fmt_fails (run_env True ''a\<newline>'' ''a\<newline>'' [])"
    "fmt_out (run_env True ''a\<newline>'' ''a\<newline>'' []) = ''a\<newline>''"
    by (simp_all add: run_env_def)
  show ?thesis
    using h reformat_noop [OF h, of Some "initial ''a\<newline>''"] by simp
qed

section \<open>The order in which the hunks reach the window\<close>

lemma addr_lines_append: "addr_lines (xs @ ys) = addr_lines xs @ addr_lines ys"
  by (simp add: addr_lines_def map_filter_def)

lemma hunk_starts_Cons:
  "hunk_starts (l # ls) = (case hunk_start l of None \<Rightarrow> [] | Some s \<Rightarrow> [s]) @ hunk_starts ls"
  by (simp add: hunk_starts_def map_filter_def split: option.splits)

lemma hunk_starts_rev: "hunk_starts (rev ls) = rev (hunk_starts ls)"
  by (simp add: hunk_starts_def map_filter_def rev_map rev_filter)

lemma win_Addr_calls: "calls (snd (win_Addr a w)) = calls w @ [Addr a]"
  by (simp add: win_Addr_def split: option.splits)

lemma apply_hunk_calls:
  assumes "is_op op"
  shows "\<exists>st' cs. apply_hunk new op oldStart oldEnd newStart newEnd st = Inr st' \<and>
           calls (win st') = calls (win st) @ cs \<and> addr_lines cs = [oldStart]"
proof -
  obtain d where d: "findLines new newStart newEnd = Inr d" using findLines_Inr by blast
  let ?a = "LinePlus0 oldStart" and ?r = "LineRange oldStart oldEnd"
  obtain ok w where a: "win_Addr ?a (win st) = (ok, w)" by (cases "win_Addr ?a (win st)")
  then have ca: "calls w = calls (win st) @ [Addr ?a]" using win_Addr_calls [of ?a "win st"] by simp
  obtain ok' w' where r: "win_Addr ?r (win st) = (ok', w')" by (cases "win_Addr ?r (win st)")
  then have cr: "calls w' = calls (win st) @ [Addr ?r]" using win_Addr_calls [of ?r "win st"] by simp
  from assms consider "op = CHR ''a''" | "op = CHR ''c''" | "op = CHR ''d''"
    by (auto simp: is_op_def)
  then show ?thesis
  proof cases
    case 1
    then show ?thesis using a ca d
      by (cases ok) (auto simp: apply_hunk_def win_Write_data_def addr_lines_def map_filter_def)
  next
    case 2
    then show ?thesis using r cr d
      by (cases ok') (auto simp: apply_hunk_def win_Write_data_def addr_lines_def map_filter_def)
  next
    case 3
    then show ?thesis using r cr
      by (cases ok') (auto simp: apply_hunk_def win_Write_data_def addr_lines_def map_filter_def)
  qed
qed

lemma diff_line_calls:
  "(\<exists>st' cs. diff_line new line st = Inr (Continue st') \<and>
        calls (win st') = calls (win st) @ cs \<and>
        addr_lines cs = (case hunk_start line of None \<Rightarrow> [] | Some s \<Rightarrow> [s]) \<and>
        fst (diff_header line) \<noteq> Unparseable) \<or>
   (\<exists>st'. diff_line new line st = Inr (Break st') \<and> calls (win st') = calls (win st) \<and>
        fst (diff_header line) = Unparseable)"
proof (cases "diff_header line")
  case (Pair h msgs)
  show ?thesis
  proof (cases h)
    case Ignored
    then show ?thesis using Pair
      by (auto simp: diff_line_def hunk_start_def addr_lines_def map_filter_def)
  next
    case Unparseable
    then show ?thesis using Pair by (auto simp: diff_line_def)
  next
    case (Hunk op oldStart oldEnd newStart newEnd)
    with Pair have hd: "diff_header line = (Hunk op oldStart oldEnd newStart newEnd, msgs)" by simp
    show ?thesis
    proof (cases "oldStart = 0 \<or> newStart = 0")
      case True
      then show ?thesis using hd
        by (auto simp: diff_line_def hunk_start_def addr_lines_def map_filter_def)
    next
      case False
      from diff_header_msgs [OF hd] have "is_op op" using scan_op_found [of line] by simp
      from apply_hunk_calls [OF this, of new oldStart oldEnd newStart newEnd "st\<lparr>out := out st @ msgs\<rparr>"]
      obtain st' cs where
        "apply_hunk new op oldStart oldEnd newStart newEnd (st\<lparr>out := out st @ msgs\<rparr>) = Inr st'"
        "calls (win st') = calls (win st) @ cs" "addr_lines cs = [oldStart]"
        by auto
      then show ?thesis using hd False
        by (auto simp: diff_line_def hunk_start_def)
    qed
  qed
qed

lemma apply_diff_calls:
  "\<exists>st' cs k. apply_diff new ls st = Inr st' \<and>
      calls (win st') = calls (win st) @ cs \<and>
      addr_lines cs = take k (hunk_starts ls) \<and>
      ((\<forall>l\<in>set ls. fst (diff_header l) \<noteq> Unparseable) \<longrightarrow> addr_lines cs = hunk_starts ls)"
proof (induction ls arbitrary: st)
  case Nil
  show ?case by (simp add: addr_lines_def hunk_starts_def map_filter_def)
next
  case (Cons line ls)
  let ?h = "case hunk_start line of None \<Rightarrow> [] | Some s \<Rightarrow> [s]"
  from diff_line_calls [of new line st]
  consider st1 cs1 where "diff_line new line st = Inr (Continue st1)"
      "calls (win st1) = calls (win st) @ cs1" "addr_lines cs1 = ?h"
      "fst (diff_header line) \<noteq> Unparseable"
    | st1 where "diff_line new line st = Inr (Break st1)" "calls (win st1) = calls (win st)"
      "fst (diff_header line) = Unparseable"
    by blast
  then show ?case
  proof cases
    case 1
    from Cons.IH [of st1] obtain st' cs k where
      r: "apply_diff new ls st1 = Inr st'" "calls (win st') = calls (win st1) @ cs"
        "addr_lines cs = take k (hunk_starts ls)"
        "(\<forall>l\<in>set ls. fst (diff_header l) \<noteq> Unparseable) \<longrightarrow> addr_lines cs = hunk_starts ls"
      by blast
    have a: "apply_diff new (line # ls) st = Inr st'" using 1(1) r(1) by simp
    have c: "calls (win st') = calls (win st) @ (cs1 @ cs)" using 1(2) r(2) by simp
    have t: "addr_lines (cs1 @ cs) = take (length ?h + k) (hunk_starts (line # ls))"
      using 1(3) r(3) by (simp add: addr_lines_append hunk_starts_Cons)
    have f: "(\<forall>l\<in>set (line # ls). fst (diff_header l) \<noteq> Unparseable) \<longrightarrow>
        addr_lines (cs1 @ cs) = hunk_starts (line # ls)"
      using 1(3) r(4) by (simp add: addr_lines_append hunk_starts_Cons)
    from a c t f show ?thesis by blast
  next
    case 2
    have a: "apply_diff new (line # ls) st = Inr st1" using 2(1) by simp
    have c: "calls (win st1) = calls (win st) @ []" using 2(2) by simp
    have t: "addr_lines [] = take 0 (hunk_starts (line # ls))" by (simp add: addr_lines_def map_filter_def)
    have f: "(\<forall>l\<in>set (line # ls). fst (diff_header l) \<noteq> Unparseable) \<longrightarrow>
        addr_lines [] = hunk_starts (line # ls)"
      using 2(3) by simp
    from a c t f show ?thesis by blast
  qed
qed

lemma reformat_full:
  assumes "dofmt e" "\<not> open_fails e" "file_read e = Some old" "\<not> fmt_fails e" "fmt_out e \<noteq> old"
    "\<not> tempfile_fails e" "\<not> tempwrite_fails e" "\<not> readall_fails e" "body (win st) = old"
  shows "reformat readImports e st =
     apply_diff (fmt_out e) (rev (strings_Split (diff_out e)))
       (st\<lparr>win := win_Write_ctl ''nomark'' (win_Write_ctl ''mark'' (win st))\<rparr>)"
  using assms by (auto simp: reformat_def Let_def)


text \<open>
  C3. The hunks of a diff are applied in the reverse of the order in which they appear in the
  diff, the last hunk first: the old start lines named by the requests \<^verbatim>\<open>w.Addr\<close> of a run are
  the old start lines of the hunk headers of the diff (those with both starts different from
  0), read from the last line of the diff backwards; they are all of them when no line stops
  the loop, and those visited before the stop otherwise. The hunks of a diff come in strictly
  ascending order of old start line; hence the hunks are applied in strictly descending order
  of old start line: of any two hunks applied, the one applied earlier has the higher old start
  line.
\<close>

theorem hunks_applied_last_first:
  assumes "dofmt e" "\<not> open_fails e" "file_read e = Some old" "\<not> fmt_fails e" "fmt_out e \<noteq> old"
    "\<not> tempfile_fails e" "\<not> tempwrite_fails e" "\<not> readall_fails e" "body (win st) = old"
    and "sorted_wrt (<) (hunk_starts (strings_Split (diff_out e)))"
  shows "\<exists>st' cs. reformat readImports e st = Inr st' \<and>
      calls (win st') = calls (win st) @ [WriteCtl ''mark'', WriteCtl ''nomark''] @ cs \<and>
      prefix (addr_lines cs) (rev (hunk_starts (strings_Split (diff_out e)))) \<and>
      ((\<forall>l\<in>set (strings_Split (diff_out e)). fst (diff_header l) \<noteq> Unparseable) \<longrightarrow>
         addr_lines cs = rev (hunk_starts (strings_Split (diff_out e)))) \<and>
      sorted_wrt (>) (addr_lines cs)"
proof -
  let ?ls = "strings_Split (diff_out e)"
  let ?st1 = "st\<lparr>win := win_Write_ctl ''nomark'' (win_Write_ctl ''mark'' (win st))\<rparr>"
  from apply_diff_calls [of "fmt_out e" "rev ?ls" ?st1] obtain st' cs k where
    r: "apply_diff (fmt_out e) (rev ?ls) ?st1 = Inr st'"
      "calls (win st') = calls (win ?st1) @ cs"
      "addr_lines cs = take k (hunk_starts (rev ?ls))"
      "(\<forall>l\<in>set (rev ?ls). fst (diff_header l) \<noteq> Unparseable) \<longrightarrow> addr_lines cs = hunk_starts (rev ?ls)"
    by blast
  have 1: "reformat readImports e st = Inr st'"
    using reformat_full [OF assms(1-9)] r(1) by simp
  have 2: "calls (win st') = calls (win st) @ [WriteCtl ''mark'', WriteCtl ''nomark''] @ cs"
    using r(2) by (simp add: win_Write_ctl_def)
  have 3: "prefix (addr_lines cs) (rev (hunk_starts ?ls))"
    using r(3) by (simp add: hunk_starts_rev take_is_prefix)
  have 4: "(\<forall>l\<in>set ?ls. fst (diff_header l) \<noteq> Unparseable) \<longrightarrow> addr_lines cs = rev (hunk_starts ?ls)"
    using r(4) by (simp add: hunk_starts_rev)
  have "sorted_wrt (>) (rev (hunk_starts ?ls))"
    using assms(10) by (simp add: sorted_wrt_rev)
  then have 5: "sorted_wrt (>) (addr_lines cs)"
    unfolding r(3) hunk_starts_rev by (rule sorted_wrt_take)
  from 1 2 3 4 5 show ?thesis by blast
qed


theorem hunks_applied_last_first_witness:
  "dofmt (run_env True ''a\<newline>b\<newline>c\<newline>'' ''a\<newline>x\<newline>c\<newline>y\<newline>'' ''2c2\<newline>< b\<newline>---\<newline>> x\<newline>3a4\<newline>> y\<newline>'') \<and>
   sorted_wrt (<) (hunk_starts (strings_Split ''2c2\<newline>< b\<newline>---\<newline>> x\<newline>3a4\<newline>> y\<newline>'')) \<and>
   hunk_starts (strings_Split ''2c2\<newline>< b\<newline>---\<newline>> x\<newline>3a4\<newline>> y\<newline>'') = [2, 3] \<and>
   (\<exists>st' cs.
      reformat Some
        (run_env True ''a\<newline>b\<newline>c\<newline>'' ''a\<newline>x\<newline>c\<newline>y\<newline>'' ''2c2\<newline>< b\<newline>---\<newline>> x\<newline>3a4\<newline>> y\<newline>'')
        (initial ''a\<newline>b\<newline>c\<newline>'') = Inr st' \<and>
      calls (win st') = [WriteCtl ''mark'', WriteCtl ''nomark''] @ cs \<and>
      addr_lines cs = [3, 2] \<and> sorted_wrt (>) (addr_lines cs))"
proof -
  let ?d = "''2c2\<newline>< b\<newline>---\<newline>> x\<newline>3a4\<newline>> y\<newline>''"
  let ?e = "run_env True ''a\<newline>b\<newline>c\<newline>'' ''a\<newline>x\<newline>c\<newline>y\<newline>'' ?d"
  have e: "dofmt ?e" "\<not> open_fails ?e" "file_read ?e = Some ''a\<newline>b\<newline>c\<newline>''" "\<not> fmt_fails ?e"
    "fmt_out ?e \<noteq> ''a\<newline>b\<newline>c\<newline>''" "\<not> tempfile_fails ?e" "\<not> tempwrite_fails ?e"
    "\<not> readall_fails ?e" "body (win (initial ''a\<newline>b\<newline>c\<newline>'')) = ''a\<newline>b\<newline>c\<newline>''"
    by (simp_all add: run_env_def initial_def window_of_def)
  have d: "diff_out ?e = ?d"
    by (simp add: run_env_def)
  have hs: "hunk_starts (strings_Split ?d) = [2, 3]"
    by code_simp
  have np: "\<forall>l\<in>set (strings_Split ?d). fst (diff_header l) \<noteq> Unparseable"
    by code_simp
  have s: "sorted_wrt (<) (hunk_starts (strings_Split (diff_out ?e)))"
    unfolding d hs by simp
  have c: "calls (win (initial ''a\<newline>b\<newline>c\<newline>'')) = []"
    by (simp add: initial_def window_of_def)
  show ?thesis
    using hunks_applied_last_first [OF e s, of Some] e(1) hs np
    unfolding d c by auto
qed

section \<open>The top-of-file mode\<close>

lemma cont_bytes_le: "cont_bytes c cs \<le> length cs"
  by (simp add: cont_bytes_def cont_ok_def)

lemma cont_ok_append: "cont_needed c \<le> length cs \<Longrightarrow> cont_ok c (cs @ r) = cont_ok c cs"
  by (auto simp: cont_ok_def nth_append cont_needed_def split: if_splits)

lemma cont_bytes_append: "cont_needed c \<le> length cs \<Longrightarrow> cont_bytes c (cs @ r) = cont_bytes c cs"
  by (simp add: cont_bytes_def cont_ok_append)

lemma rune_offset_whole:
  "whole_runes p \<Longrightarrow> rune_offset (p @ r) (RuneCount p) = Some (length p)"
proof (induction p rule: RuneCount.induct)
  case 1
  show ?case by simp
next
  case (2 c cs)
  let ?k = "cont_bytes c cs"
  from "2.prems" have n: "cont_needed c \<le> length cs" and w: "whole_runes (drop ?k cs)" by simp_all
  have k: "cont_bytes c (cs @ r) = ?k" using n by (rule cont_bytes_append)
  have le: "?k \<le> length cs" by (rule cont_bytes_le)
  have "rune_offset (drop ?k cs @ r) (RuneCount (drop ?k cs)) = Some (length (drop ?k cs))"
    using "2.IH" w by simp
  then show ?case using k le by (simp add: rune_size_def)
qed

lemma reformat_region:
  assumes "\<not> dofmt e" "\<not> open_fails e" "file_read e = Some old" "\<not> fmt_fails e" "fmt_out e \<noteq> old"
    "readImports old = Some oldTop" "readImports (fmt_out e) = Some newTop"
  shows "reformat readImports e st =
     (if oldTop = newTop then Inr st
      else Inr (st\<lparr>win := win_Write_data newTop
                  (snd (win_Addr (Rune0 (RuneCount oldTop)) (win st)))\<rparr>))"
  using assms by (auto simp: reformat_def Let_def)


text \<open>
  C4. In the top-of-file mode, with \<open>oldTop\<close> and \<open>newTop\<close> extracted from \<open>old\<close> and \<open>new\<close> by the
  same rule: if \<open>oldTop\<close> and \<open>newTop\<close> are byte-identical, \<open>reformat\<close> returns without any request
  to the window. If they differ, and the live document is \<open>old\<close>, of which \<open>oldTop\<close> is the
  leading region, made of whole characters: exactly one edit operation is produced, and nothing is
  printed; it replaces the byte range \<open>[0, length oldTop)\<close> of the live document with \<open>newTop\<close>
  (the code writes the address as \<^verbatim>\<open>0,#n\<close> with \<open>n\<close> the number of characters of \<open>oldTop\<close>, which
  is that byte range), and the bytes at and after offset \<open>length oldTop\<close> are kept as they are.
\<close>

theorem region_mode_single_edit:
  assumes "\<not> dofmt e" "\<not> open_fails e" "file_read e = Some old" "\<not> fmt_fails e" "fmt_out e \<noteq> old"
    "readImports old = Some oldTop" "readImports (fmt_out e) = Some newTop"
  shows "(oldTop = newTop \<longrightarrow> reformat readImports e st = Inr st) \<and>
         (oldTop \<noteq> newTop \<and> body (win st) = old \<and> old = oldTop @ rest \<and> whole_runes oldTop \<longrightarrow>
            (\<exists>st'. reformat readImports e st = Inr st' \<and> out st' = out st \<and>
               calls (win st') =
                 calls (win st) @ [Addr (Rune0 (RuneCount oldTop)), WriteData newTop] \<and>
               resolve (body (win st)) (Rune0 (RuneCount oldTop)) = Some (0, length oldTop) \<and>
               body (win st') = newTop @ drop (length oldTop) (body (win st)) \<and>
               drop (length newTop) (body (win st')) = drop (length oldTop) old))"
proof -
  let ?a = "Rune0 (RuneCount oldTop)"
  let ?st' = "st\<lparr>win := win_Write_data newTop (snd (win_Addr ?a (win st)))\<rparr>"
  have r: "reformat readImports e st = (if oldTop = newTop then Inr st else Inr ?st')"
    using assms by (rule reformat_region)
  have c: "calls (win ?st') = calls (win st) @ [Addr ?a, WriteData newTop]"
    by (simp add: win_Write_data_def win_Addr_def split: option.splits)
  have b: "resolve (body (win st)) ?a = Some (0, length oldTop) \<and>
      body (win ?st') = newTop @ drop (length oldTop) (body (win st)) \<and>
      drop (length newTop) (body (win ?st')) = drop (length oldTop) old"
    if "body (win st) = old" "old = oldTop @ rest" "whole_runes oldTop"
  proof -
    have w: "body (win st) = oldTop @ rest" using that(1,2) by simp
    have "resolve (body (win st)) ?a = Some (0, length oldTop)"
      unfolding w using that(3) rune_offset_whole [of oldTop rest] by simp
    then show ?thesis using w that(2) by (simp add: win_Write_data_def win_Addr_def)
  qed
  show ?thesis using r c b by auto
qed

theorem region_mode_single_edit_witness:
  "\<not> dofmt (run_env False ''package p\<newline>import \"a\"\<newline>\<newline>func main() {}\<newline>'' ''package p\<newline>import \"a\"\<newline>import \"b\"\<newline>\<newline>func main() {}\<newline>'' []) \<and>
   first_blank_line ''package p\<newline>import \"a\"\<newline>\<newline>func main() {}\<newline>'' = Some ''package p\<newline>import \"a\"\<newline>\<newline>'' \<and>
   first_blank_line ''package p\<newline>import \"a\"\<newline>import \"b\"\<newline>\<newline>func main() {}\<newline>'' = Some ''package p\<newline>import \"a\"\<newline>import \"b\"\<newline>\<newline>'' \<and>
   body (win (initial ''package p\<newline>import \"a\"\<newline>\<newline>func main() {}\<newline>'')) = ''package p\<newline>import \"a\"\<newline>\<newline>func main() {}\<newline>'' \<and> ''package p\<newline>import \"a\"\<newline>\<newline>func main() {}\<newline>'' = ''package p\<newline>import \"a\"\<newline>\<newline>'' @ ''func main() {}\<newline>'' \<and>
   whole_runes ''package p\<newline>import \"a\"\<newline>\<newline>'' \<and>
   (\<exists>st'. reformat first_blank_line (run_env False ''package p\<newline>import \"a\"\<newline>\<newline>func main() {}\<newline>'' ''package p\<newline>import \"a\"\<newline>import \"b\"\<newline>\<newline>func main() {}\<newline>'' []) (initial ''package p\<newline>import \"a\"\<newline>\<newline>func main() {}\<newline>'') = Inr st' \<and>
      calls (win st') = [Addr (Rune0 22), WriteData ''package p\<newline>import \"a\"\<newline>import \"b\"\<newline>\<newline>''] \<and>
      body (win st') = ''package p\<newline>import \"a\"\<newline>import \"b\"\<newline>\<newline>func main() {}\<newline>'') \<and>
   first_blank_line ''package p\<newline>import \"a\"\<newline>\<newline>func  main() {}\<newline>'' = Some ''package p\<newline>import \"a\"\<newline>\<newline>'' \<and>
   reformat first_blank_line (run_env False ''package p\<newline>import \"a\"\<newline>\<newline>func main() {}\<newline>'' ''package p\<newline>import \"a\"\<newline>\<newline>func  main() {}\<newline>'' []) (initial ''package p\<newline>import \"a\"\<newline>\<newline>func main() {}\<newline>'') = Inr (initial ''package p\<newline>import \"a\"\<newline>\<newline>func main() {}\<newline>'')"
proof -
  let ?old = "''package p\<newline>import \"a\"\<newline>\<newline>func main() {}\<newline>''"
  let ?new = "''package p\<newline>import \"a\"\<newline>import \"b\"\<newline>\<newline>func main() {}\<newline>''"
  let ?new' = "''package p\<newline>import \"a\"\<newline>\<newline>func  main() {}\<newline>''"
  let ?oldTop = "''package p\<newline>import \"a\"\<newline>\<newline>''"
  let ?newTop = "''package p\<newline>import \"a\"\<newline>import \"b\"\<newline>\<newline>''"
  let ?rest = "''func main() {}\<newline>''"
  let ?e = "run_env False ?old ?new []"
  let ?e' = "run_env False ?old ?new' []"
  have e: "\<not> dofmt ?e" "\<not> open_fails ?e" "file_read ?e = Some ?old" "\<not> fmt_fails ?e"
    "fmt_out ?e \<noteq> ?old"
    by (simp_all add: run_env_def)
  have e': "\<not> dofmt ?e'" "\<not> open_fails ?e'" "file_read ?e' = Some ?old" "\<not> fmt_fails ?e'"
    "fmt_out ?e' \<noteq> ?old"
    by (simp_all add: run_env_def)
  have t: "first_blank_line ?old = Some ?oldTop" "first_blank_line ?new = Some ?newTop"
    "first_blank_line ?new' = Some ?oldTop"
    by code_simp+
  have t1: "first_blank_line (fmt_out ?e) = Some ?newTop"
    using t(2) by (simp add: run_env_def)
  have t2: "first_blank_line (fmt_out ?e') = Some ?oldTop"
    using t(3) by (simp add: run_env_def)
  have w: "whole_runes ?oldTop"
    by code_simp
  have n: "RuneCount ?oldTop = 22"
    by code_simp
  have b: "body (win (initial ?old)) = ?old" "calls (win (initial ?old)) = []"
    by (simp_all add: initial_def window_of_def)
  have p: "?old = ?oldTop @ ?rest"
    by simp
  have d: "?oldTop \<noteq> ?newTop"
    by simp
  have hyp: "?oldTop \<noteq> ?newTop \<and> body (win (initial ?old)) = ?old \<and> ?old = ?oldTop @ ?rest \<and>
      whole_runes ?oldTop"
    using d b(1) p w by (intro conjI)
  note inst = region_mode_single_edit [OF e t(1) t1, of "initial ?old" ?rest]
  from inst [THEN conjunct2, THEN mp, OF hyp]
  obtain st' where s: "reformat first_blank_line ?e (initial ?old) = Inr st'"
    "calls (win st') = calls (win (initial ?old)) @ [Addr (Rune0 (RuneCount ?oldTop)), WriteData ?newTop]"
    "body (win st') = ?newTop @ drop (length ?oldTop) (body (win (initial ?old)))"
    by blast
  have c: "calls (win st') = [Addr (Rune0 22), WriteData ?newTop]"
    unfolding s(2) b(2) n by simp
  have "drop (length ?oldTop) ?old = ?rest"
    by simp
  then have bd: "body (win st') = ?new"
    unfolding s(3) b(1) by simp
  have 1: "\<exists>st'. reformat first_blank_line ?e (initial ?old) = Inr st' \<and>
      calls (win st') = [Addr (Rune0 22), WriteData ?newTop] \<and> body (win st') = ?new"
    using s(1) c bd by (intro exI [of _ st'] conjI)
  note inst' = region_mode_single_edit [OF e' t(1) t2, of "initial ?old" ?rest]
  have 2: "reformat first_blank_line ?e' (initial ?old) = Inr (initial ?old)"
    using inst' [THEN conjunct1] by (rule mp) (rule refl)
  show ?thesis
    using e(1) t(1) t(2) b(1) p w 1 t(3) 2 by (intro conjI)
qed

section \<open>The check that the window was not modified\<close>

lemma full_mode_guard:
  assumes "dofmt e" "\<not> open_fails e" "file_read e = Some old" "\<not> fmt_fails e" "fmt_out e \<noteq> old"
    "\<not> tempfile_fails e" "\<not> tempwrite_fails e" "\<not> readall_fails e" "body (win st) \<noteq> old"
  shows "reformat readImports e st = Inr (log_msg SkippedUpdate st)"
  using assms by (auto simp: reformat_def Let_def)

lemma full_mode_stale_untouched:
  assumes "dofmt e" "file_read e = Some old" "body (win st) \<noteq> old"
  shows "\<exists>st'. reformat readImports e st = Inr st' \<and> win st' = win st"
  using assms by (auto simp: reformat_def Let_def log_msg_def)

text \<open>
  C2. Before edit operations are applied, the live document is compared with the old snapshot,
  and when they differ nothing is applied and a message is logged: this holds on the path that
  applies the diff (\<open>full_mode_guard\<close>), and the claim states it for the top-of-file mode as well.
  There the code makes no comparison. At the input below the window was modified after the file
  was written (a comment line was added at the top): \<open>reformat\<close> still issues its edit operation,
  which overwrites the first 22 characters of the modified document and cuts the line of the
  import; no message is logged.
\<close>

theorem region_mode_applies_to_stale_window:
  "body (win (initial ''// note\<newline>package p\<newline>import \"a\"\<newline>\<newline>func main() {}\<newline>'')) \<noteq> ''package p\<newline>import \"a\"\<newline>\<newline>func main() {}\<newline>'' \<and>
   reformat first_blank_line (run_env False ''package p\<newline>import \"a\"\<newline>\<newline>func main() {}\<newline>'' ''package p\<newline>import \"a\"\<newline>import \"b\"\<newline>\<newline>func main() {}\<newline>'' []) (initial ''// note\<newline>package p\<newline>import \"a\"\<newline>\<newline>func main() {}\<newline>'') =
   Inr \<lparr>win = \<lparr>body = ''package p\<newline>import \"a\"\<newline>import \"b\"\<newline>\<newline>rt \"a\"\<newline>\<newline>func main() {}\<newline>'', q0 = 33, q1 = 33,
              calls = [Addr (Rune0 22), WriteData ''package p\<newline>import \"a\"\<newline>import \"b\"\<newline>\<newline>'']\<rparr>,
        out = []\<rparr>"
  by code_simp

section \<open>Applying a diff to a text made of whole lines\<close>

lemma unlines_Nil [simp]: "unlines [] = []"
  by (simp add: unlines_def)

lemma unlines_Cons [simp]: "unlines (l # ls) = l @ newline # unlines ls"
  by (simp add: unlines_def)

lemma unlines_append [simp]: "unlines (xs @ ys) = unlines xs @ unlines ys"
  by (simp add: unlines_def)

lemma unlines_take_drop: "unlines ls = unlines (take k ls) @ unlines (drop k ls)"
  using unlines_append [of "take k ls" "drop k ls"] by simp

lemma skipLines_line:
  "newline \<notin> set l \<Longrightarrow> skipLines (l @ newline # rest) (Suc k) = length l + 1 + skipLines rest k"
  by (induction l) auto

lemma skipLines_unlines:
  "\<forall>l\<in>set ls. newline \<notin> set l \<Longrightarrow> skipLines (unlines ls @ rest) k =
     (if k \<le> length ls then length (unlines (take k ls))
      else length (unlines ls) + skipLines rest (k - length ls))"
proof (induction ls arbitrary: k)
  case Nil
  show ?case by simp
next
  case (Cons l ls)
  show ?case
  proof (cases k)
    case 0
    then show ?thesis by simp
  next
    case (Suc k')
    have "skipLines (l @ newline # (unlines ls @ rest)) (Suc k') =
        length l + 1 + skipLines (unlines ls @ rest) k'"
      using Cons.prems by (intro skipLines_line) simp
    then show ?thesis using Cons.IH [of k'] Cons.prems Suc by simp
  qed
qed

lemma skipLines_unlines_le:
  "\<forall>l\<in>set ls. newline \<notin> set l \<Longrightarrow> k \<le> length ls \<Longrightarrow>
   skipLines (unlines ls) k = length (unlines (take k ls))"
  using skipLines_unlines [of ls "[]" k] by simp

lemma count_unlines:
  "\<forall>l\<in>set ls. newline \<notin> set l \<Longrightarrow> count_list (unlines ls) newline = length ls"
  by (induction ls) (auto simp: count_list_append count_list_0_iff)

lemma unlines_eq_Nil: "unlines ls = [] \<longleftrightarrow> ls = []"
  by (cases ls) auto

lemma last_unlines: "ls \<noteq> [] \<Longrightarrow> last (unlines ls) = newline"
  by (induction ls) (auto simp: unlines_eq_Nil)

lemma num_lines_unlines:
  "\<forall>l\<in>set ls. newline \<notin> set l \<Longrightarrow> num_lines (unlines ls) = length ls"
  by (cases "ls = []") (simp_all add: num_lines_def count_unlines last_unlines unlines_eq_Nil)

lemma take_unlines: "take (length (unlines (take k ls))) (unlines ls) = unlines (take k ls)"
  using unlines_take_drop [of ls k] by (metis append_eq_conv_conj)

lemma drop_unlines: "drop (length (unlines (take k ls))) (unlines ls) = unlines (drop k ls)"
  using unlines_take_drop [of ls k] by (metis append_eq_conv_conj)

lemma acme_line_unlines:
  assumes "\<forall>l\<in>set ls. newline \<notin> set l" "1 \<le> n" "nat n \<le> length ls"
  shows "acme_line (unlines ls) n =
     Some (length (unlines (take (nat n - 1) ls)), length (unlines (take (nat n) ls)))"
  using assms by (auto simp: acme_line_def num_lines_unlines skipLines_unlines_le)

lemma findLines_unlines:
  assumes lf: "\<forall>l\<in>set ls. newline \<notin> set l"
    and r: "1 \<le> s" "s \<le> e" "e \<le> MaxInt64" "nat e \<le> length ls"
  shows "findLines (unlines ls) s e = Inr (unlines (take (nat e - (nat s - 1)) (drop (nat s - 1) ls)))"
proof -
  let ?a = "nat s - 1" and ?b = "nat e"
  have ab: "?a \<le> ?b" "?a \<le> length ls" using r by auto
  have m: "MinInt64 \<le> e - (s - 1)" "s \<le> MaxInt64" using r by (simp_all add: MinInt64_def MaxInt64_def)
  have f: "findLines (unlines ls) s e =
     Inr (take (byteOffsetOfLine (unlines ls) (nat e + 1) - byteOffsetOfLine (unlines ls) (nat s))
            (drop (byteOffsetOfLine (unlines ls) (nat s)) (unlines ls)))"
    using findLines_lines [OF r(1) m(2) m(1) r(3), of "unlines ls"] r by simp
  have o1: "byteOffsetOfLine (unlines ls) (nat s) = length (unlines (take ?a ls))"
    using lf ab by (simp add: byteOffsetOfLine_def skipLines_unlines_le)
  have o2: "byteOffsetOfLine (unlines ls) (nat e + 1) = length (unlines (take ?b ls))"
    using lf r by (simp add: byteOffsetOfLine_def skipLines_unlines_le)
  have t: "take ?b ls = take ?a ls @ take (?b - ?a) (drop ?a ls)"
    using ab by (metis le_add_diff_inverse take_add)
  have d: "drop (length (unlines (take ?a ls))) (unlines ls) = unlines (drop ?a ls)"
    by (rule drop_unlines)
  have "take (length (unlines (take ?b ls)) - length (unlines (take ?a ls))) (unlines (drop ?a ls)) =
      unlines (take (?b - ?a) (drop ?a ls))"
    using take_unlines [of "?b - ?a" "drop ?a ls"] by (simp add: t)
  then show ?thesis unfolding f o1 o2 d by simp
qed

lemma Atoi_range: "Atoi t = Some n \<Longrightarrow> MinInt64 \<le> n \<and> n \<le> MaxInt64"
  by (auto simp: Atoi_def Let_def split: list.splits if_splits)

lemma parseSpan_range:
  "MinInt64 \<le> fst (fst (parseSpan t)) \<and> fst (fst (parseSpan t)) \<le> MaxInt64 \<and>
   MinInt64 \<le> snd (fst (parseSpan t)) \<and> snd (fst (parseSpan t)) \<le> MaxInt64"
  using Atoi_range
  by (auto simp: parseSpan_def MinInt64_def MaxInt64_def split: option.splits)

lemma diff_header_range:
  assumes "diff_header line = (Hunk op oldStart oldEnd newStart newEnd, msgs)"
  shows "newEnd \<le> MaxInt64"
proof -
  from assms have "newEnd = snd (fst (parseSpan (drop (scan_op line 0 + 1) line)))"
    by (cases line) (auto simp: diff_header_def Let_def split: if_splits)
  then show ?thesis using parseSpan_range by simp
qed

lemma length_unlines_take_mono: "a \<le> b \<Longrightarrow> length (unlines (take a ls)) \<le> length (unlines (take b ls))"
proof -
  assume "a \<le> b"
  then have "take b ls = take a ls @ take (b - a) (drop a ls)"
    by (metis le_add_diff_inverse take_add)
  then show ?thesis by simp
qed

lemma write_range:
  assumes "a \<le> b" "b \<le> length cur"
  shows "take (length (unlines (take a cur))) (unlines cur) @ d @
         drop (length (unlines (take b cur))) (unlines cur) =
         unlines (take a cur) @ d @ unlines (drop b cur)"
  by (simp add: take_unlines drop_unlines)

lemma apply_hunk_c:
  assumes lc: "\<forall>l\<in>set cur. newline \<notin> set l" and ln: "\<forall>l\<in>set nls. newline \<notin> set l"
    and b: "body (win st) = unlines cur"
    and o: "1 \<le> oldStart" "oldStart \<le> oldEnd" "nat oldEnd \<le> length cur"
    and n: "1 \<le> newStart" "newStart \<le> newEnd" "newEnd \<le> MaxInt64" "nat newEnd \<le> length nls"
  shows "\<exists>st'. apply_hunk (unlines nls) (CHR ''c'') oldStart oldEnd newStart newEnd st = Inr st' \<and>
     body (win st') =
       unlines (take (nat oldStart - 1) cur @
                take (nat newEnd - (nat newStart - 1)) (drop (nat newStart - 1) nls) @
                drop (nat oldEnd) cur)"
proof -
  let ?a = "nat oldStart - 1" and ?b = "nat oldEnd"
  have ab: "?a \<le> ?b" "nat oldStart \<le> length cur" using o by auto
  have l1: "acme_line (unlines cur) oldStart =
      Some (length (unlines (take ?a cur)), length (unlines (take (nat oldStart) cur)))"
    using lc o ab by (intro acme_line_unlines) auto
  have l2: "acme_line (unlines cur) oldEnd =
      Some (length (unlines (take (nat oldEnd - 1) cur)), length (unlines (take ?b cur)))"
    using lc o by (intro acme_line_unlines) auto
  have r: "resolve (body (win st)) (LineRange oldStart oldEnd) =
      Some (length (unlines (take ?a cur)), length (unlines (take ?b cur)))"
    using l1 l2 length_unlines_take_mono [OF ab(1), of cur] by (simp add: b)
  have f: "findLines (unlines nls) newStart newEnd =
      Inr (unlines (take (nat newEnd - (nat newStart - 1)) (drop (nat newStart - 1) nls)))"
    using ln n by (rule findLines_unlines)
  show ?thesis
    using r f write_range [OF ab(1) o(3)]
    by (simp add: apply_hunk_def win_Addr_def win_Write_data_def b)
qed

lemma apply_hunk_d:
  assumes lc: "\<forall>l\<in>set cur. newline \<notin> set l"
    and b: "body (win st) = unlines cur"
    and o: "1 \<le> oldStart" "oldStart \<le> oldEnd" "nat oldEnd \<le> length cur"
  shows "\<exists>st'. apply_hunk new (CHR ''d'') oldStart oldEnd newStart newEnd st = Inr st' \<and>
     body (win st') = unlines (take (nat oldStart - 1) cur @ drop (nat oldEnd) cur)"
proof -
  let ?a = "nat oldStart - 1" and ?b = "nat oldEnd"
  have ab: "?a \<le> ?b" "nat oldStart \<le> length cur" using o by auto
  have l1: "acme_line (unlines cur) oldStart =
      Some (length (unlines (take ?a cur)), length (unlines (take (nat oldStart) cur)))"
    using lc o ab by (intro acme_line_unlines) auto
  have l2: "acme_line (unlines cur) oldEnd =
      Some (length (unlines (take (nat oldEnd - 1) cur)), length (unlines (take ?b cur)))"
    using lc o by (intro acme_line_unlines) auto
  have r: "resolve (body (win st)) (LineRange oldStart oldEnd) =
      Some (length (unlines (take ?a cur)), length (unlines (take ?b cur)))"
    using l1 l2 length_unlines_take_mono [OF ab(1), of cur] by (simp add: b)
  show ?thesis
    using r write_range [OF ab(1) o(3), of "[]"]
    by (simp add: apply_hunk_def win_Addr_def win_Write_data_def b)
qed

lemma apply_hunk_a:
  assumes lc: "\<forall>l\<in>set cur. newline \<notin> set l" and ln: "\<forall>l\<in>set nls. newline \<notin> set l"
    and b: "body (win st) = unlines cur"
    and o: "1 \<le> oldStart" "nat oldStart \<le> length cur"
    and n: "1 \<le> newStart" "newStart \<le> newEnd" "newEnd \<le> MaxInt64" "nat newEnd \<le> length nls"
  shows "\<exists>st'. apply_hunk (unlines nls) (CHR ''a'') oldStart oldEnd newStart newEnd st = Inr st' \<and>
     body (win st') =
       unlines (take (nat oldStart) cur @
                take (nat newEnd - (nat newStart - 1)) (drop (nat newStart - 1) nls) @
                drop (nat oldStart) cur)"
proof -
  let ?b = "nat oldStart"
  have l1: "acme_line (unlines cur) oldStart =
      Some (length (unlines (take (?b - 1) cur)), length (unlines (take ?b cur)))"
    using lc o by (intro acme_line_unlines) auto
  have r: "win_Addr (LinePlus0 oldStart) (win st) =
      (True, (win st)\<lparr>q0 := length (unlines (take ?b cur)), q1 := length (unlines (take ?b cur)),
                        calls := calls (win st) @ [Addr (LinePlus0 oldStart)]\<rparr>)"
    by (simp add: win_Addr_def b l1)
  have f: "findLines (unlines nls) newStart newEnd =
      Inr (unlines (take (nat newEnd - (nat newStart - 1)) (drop (nat newStart - 1) nls)))"
    using ln n by (rule findLines_unlines)
  show ?thesis
    using write_range [OF order_refl o(2)]
    by (simp add: apply_hunk_def r f win_Write_data_def b)
qed


lemma apply_diff_append:
  "\<forall>x\<in>set xs. fst (diff_header x) \<noteq> Unparseable \<Longrightarrow>
   apply_diff new (xs @ ys) st =
     (case apply_diff new xs st of Inl p \<Rightarrow> Inl p | Inr st1 \<Rightarrow> apply_diff new ys st1)"
proof (induction xs arbitrary: st)
  case Nil
  show ?case by simp
next
  case (Cons x xs)
  show ?case
  proof (cases "diff_line new x st")
    case (Inl p)
    then show ?thesis by simp
  next
    case (Inr f)
    show ?thesis
    proof (cases f)
      case (Continue s)
      then show ?thesis using Inr Cons by simp
    next
      case (Break s)
      then have "fst (diff_header x) = Unparseable" using Inr diff_line_Break by blast
      then show ?thesis using Cons.prems by simp
    qed
  qed
qed

lemma headers_of_Cons:
  "headers_of (l # ls) =
     (if fst (diff_header l) = Ignored then headers_of ls else fst (diff_header l) # headers_of ls)"
  by (simp add: headers_of_def)

lemma script_hunks: "script ols nls i j hs \<Longrightarrow> Unparseable \<notin> set hs"
  by (induction ols nls i j hs rule: script.induct) (auto simp: Let_def split: if_splits)

lemma script_parseable:
  assumes "script ols nls i j (headers_of ls)"
  shows "\<forall>l\<in>set ls. fst (diff_header l) \<noteq> Unparseable"
proof
  fix l assume "l \<in> set ls"
  show "fst (diff_header l) \<noteq> Unparseable"
  proof
    assume u: "fst (diff_header l) = Unparseable"
    with \<open>l \<in> set ls\<close> have "Unparseable \<in> set (headers_of ls)"
      by (force simp: headers_of_def)
    with script_hunks [OF assms] show False by simp
  qed
qed

lemma take_drop_rest: "m \<le> n \<Longrightarrow> take (n - m) (drop m xs) @ drop n xs = drop m xs"
proof -
  assume "m \<le> n"
  then have "drop (n - m) (drop m xs) = drop n xs" by simp
  then have "take (n - m) (drop m xs) @ drop n xs =
      take (n - m) (drop m xs) @ drop (n - m) (drop m xs)"
    by (simp only:)
  also have "\<dots> = drop m xs" by (rule append_take_drop_id)
  finally show ?thesis .
qed

lemma common_lines:
  assumes "take k (drop i ols) = take k (drop j nls)" "i + k \<le> length ols"
  shows "take (i + k) ols @ drop (j + k) nls = take i ols @ drop j nls"
proof -
  have "take (i + k) ols = take i ols @ take k (drop i ols)"
    by (simp add: take_add)
  moreover have "drop j nls = take k (drop j nls) @ drop (j + k) nls"
    by (metis append_take_drop_id drop_drop add.commute)
  ultimately show ?thesis using assms(1) by simp
qed

lemma diff_line_hunk:
  assumes "diff_header l = (Hunk op oldStart oldEnd newStart newEnd, msgs)"
    "oldStart \<noteq> 0" "newStart \<noteq> 0"
    "apply_hunk new op oldStart oldEnd newStart newEnd (st\<lparr>out := out st @ msgs\<rparr>) = Inr st'"
  shows "diff_line new l st = Inr (Continue st')"
  using assms by (simp add: diff_line_def)

lemma round_trip_aux:
  assumes lo: "\<forall>l\<in>set ols. newline \<notin> set l" and ln: "\<forall>l\<in>set nls. newline \<notin> set l"
    and b: "body (win st) = unlines ols"
  shows "script ols nls i j (headers_of ls) \<Longrightarrow> list_all no_zero_start (headers_of ls) \<Longrightarrow>
     \<exists>st'. apply_diff (unlines nls) (rev ls) st = Inr st' \<and>
           body (win st') = unlines (take i ols @ drop j nls)"
proof (induction ls arbitrary: i j)
  case Nil
  then have "drop i ols = drop j nls" by (simp add: headers_of_def)
  then have "take i ols @ drop j nls = ols" by (metis append_take_drop_id)
  then show ?case using b by simp
next
  case (Cons l ls)
  let ?new = "unlines nls"
  obtain h msgs where dh: "diff_header l = (h, msgs)" by (cases "diff_header l")
  have np: "\<forall>x\<in>set (rev ls). fst (diff_header x) \<noteq> Unparseable"
    using script_parseable [OF Cons.prems(1)] by simp
  have app: "apply_diff ?new (rev (l # ls)) st =
      (case apply_diff ?new (rev ls) st of Inl p \<Rightarrow> Inl p | Inr st1 \<Rightarrow> apply_diff ?new [l] st1)"
    using apply_diff_append [OF np, of ?new "[l]" st] by simp
  show ?case
  proof (cases h)
    case Ignored
    then have hs: "headers_of (l # ls) = headers_of ls" using dh by (simp add: headers_of_Cons)
    from Cons.IH [of i j] Cons.prems obtain st1 where
      s1: "apply_diff ?new (rev ls) st = Inr st1" "body (win st1) = unlines (take i ols @ drop j nls)"
      unfolding hs by blast
    have "diff_line ?new l st1 = Inr (Continue st1)" using dh Ignored by (simp add: diff_line_def)
    then show ?thesis using app s1 by simp
  next
    case Unparseable
    then have "headers_of (l # ls) = Unparseable # headers_of ls" using dh by (simp add: headers_of_Cons)
    then show ?thesis using Cons.prems(1) by simp
  next
    case (Hunk op oldStart oldEnd newStart newEnd)
    then have hs: "headers_of (l # ls) = Hunk op oldStart oldEnd newStart newEnd # headers_of ls"
      using dh by (simp add: headers_of_Cons)
    have dh': "diff_header l = (Hunk op oldStart oldEnd newStart newEnd, msgs)" using dh Hunk by simp
    have mx: "newEnd \<le> MaxInt64" using diff_header_range [OF dh'] .
    from Cons.prems(2) have nz: "oldStart \<noteq> 0" "newStart \<noteq> 0"
      and nzs: "list_all no_zero_start (headers_of ls)"
      unfolding hs by simp_all
    from Cons.prems(1) have sc: "script ols nls i j (Hunk op oldStart oldEnd newStart newEnd # headers_of ls)"
      unfolding hs .
    then consider (a) "op = CHR ''a''" | (d) "op = CHR ''d''" | (c) "op = CHR ''c''"
      by (auto split: if_splits)
    then show ?thesis
    proof cases
      case a
      let ?k = "nat oldStart - i"
      from sc a have s: "int i \<le> oldStart" "nat oldStart \<le> length ols"
        "take ?k (drop i ols) = take ?k (drop j nls)"
        "newStart = int (j + ?k) + 1" "newStart \<le> newEnd" "nat newEnd \<le> length nls"
        "script ols nls (nat oldStart) (nat newEnd) (headers_of ls)"
        by (simp_all add: Let_def)
      from Cons.IH [OF s(7) nzs] obtain st1 where
        s1: "apply_diff ?new (rev ls) st = Inr st1"
          "body (win st1) = unlines (take (nat oldStart) ols @ drop (nat newEnd) nls)"
        by blast
      let ?cur = "take (nat oldStart) ols @ drop (nat newEnd) nls"
      let ?st1 = "st1\<lparr>out := out st1 @ msgs\<rparr>"
      have lc: "\<forall>x\<in>set ?cur. newline \<notin> set x"
        using lo ln by (auto dest: in_set_takeD in_set_dropD)
      have os: "1 \<le> oldStart" using s(1) nz by simp
      have len: "nat oldStart \<le> length ?cur" using s(2) by simp
      have ns: "1 \<le> newStart" using s(4) by simp
      from apply_hunk_a [OF lc ln _ os len ns s(5) mx s(6), of ?st1 oldEnd] s1(2)
      obtain st' where
        h: "apply_hunk ?new (CHR ''a'') oldStart oldEnd newStart newEnd ?st1 = Inr st'"
          "body (win st') = unlines (take (nat oldStart) ?cur @
             take (nat newEnd - (nat newStart - 1)) (drop (nat newStart - 1) nls) @
             drop (nat oldStart) ?cur)"
        by auto
      have dl: "diff_line ?new l st1 = Inr (Continue st')"
        using diff_line_hunk [OF dh' nz, of ?new st1 st'] h(1) a by simp
      have e1: "take (nat oldStart) ?cur = take (nat oldStart) ols" using s(2) by simp
      have e2: "drop (nat oldStart) ?cur = drop (nat newEnd) nls" using s(2) by simp
      have jk: "nat newStart - 1 = j + ?k" using s(4) by simp
      have m: "j + ?k \<le> nat newEnd" using s(4,5) by linarith
      have e3: "take (nat newEnd - (j + ?k)) (drop (j + ?k) nls) @ drop (nat newEnd) nls =
          drop (j + ?k) nls"
        using m by (rule take_drop_rest)
      have ik: "nat oldStart = i + ?k" using s(1) by simp
      have cl: "take (i + ?k) ols @ drop (j + ?k) nls = take i ols @ drop j nls"
        using s(2,3) ik by (intro common_lines) simp_all
      have "take (nat oldStart) ?cur @
             take (nat newEnd - (nat newStart - 1)) (drop (nat newStart - 1) nls) @
             drop (nat oldStart) ?cur = take (i + ?k) ols @ drop (j + ?k) nls"
        unfolding e1 e2 jk e3 using ik by simp
      then have "body (win st') = unlines (take i ols @ drop j nls)"
        unfolding h(2) using cl by simp
      then show ?thesis using app s1(1) dl by simp
    next
      case d
      let ?k = "nat oldStart - 1 - i"
      from sc d have s: "int i < oldStart" "oldStart \<le> oldEnd" "nat oldEnd \<le> length ols"
        "take ?k (drop i ols) = take ?k (drop j nls)"
        "script ols nls (nat oldEnd) (j + ?k) (headers_of ls)"
        by (simp_all add: Let_def)
      from Cons.IH [OF s(5) nzs] obtain st1 where
        s1: "apply_diff ?new (rev ls) st = Inr st1"
          "body (win st1) = unlines (take (nat oldEnd) ols @ drop (j + ?k) nls)"
        by blast
      let ?cur = "take (nat oldEnd) ols @ drop (j + ?k) nls"
      let ?st1 = "st1\<lparr>out := out st1 @ msgs\<rparr>"
      have lc: "\<forall>x\<in>set ?cur. newline \<notin> set x"
        using lo ln by (auto dest: in_set_takeD in_set_dropD)
      have os: "1 \<le> oldStart" using s(1) by simp
      have len: "nat oldEnd \<le> length ?cur" using s(3) by simp
      from apply_hunk_d [OF lc _ os s(2) len, of ?st1 ?new newStart newEnd] s1(2)
      obtain st' where
        h: "apply_hunk ?new (CHR ''d'') oldStart oldEnd newStart newEnd ?st1 = Inr st'"
          "body (win st') = unlines (take (nat oldStart - 1) ?cur @ drop (nat oldEnd) ?cur)"
        by auto
      have dl: "diff_line ?new l st1 = Inr (Continue st')"
        using diff_line_hunk [OF dh' nz, of ?new st1 st'] h(1) d by simp
      have ik: "nat oldStart - 1 = i + ?k" using s(1) by simp
      have le: "i + ?k \<le> nat oldEnd" using s(1,2) by linarith
      have le': "nat oldStart - 1 \<le> nat oldEnd" using s(2) by simp
      have e1: "take (nat oldStart - 1) ?cur = take (nat oldStart - 1) ols" using s(3) le' by simp
      have e2: "drop (nat oldEnd) ?cur = drop (j + ?k) nls" using s(3) by simp
      have cl: "take (i + ?k) ols @ drop (j + ?k) nls = take i ols @ drop j nls"
        using s(3,4) le by (intro common_lines) simp_all
      have cl': "take (nat oldStart - 1) ols @ drop (j + ?k) nls = take i ols @ drop j nls"
        using cl by (simp only: ik [symmetric])
      have "body (win st') = unlines (take i ols @ drop j nls)"
        unfolding h(2) e1 e2 cl' ..
      then show ?thesis using app s1(1) dl by simp
    next
      case c
      let ?k = "nat oldStart - 1 - i"
      from sc c have s: "int i < oldStart" "oldStart \<le> oldEnd" "nat oldEnd \<le> length ols"
        "take ?k (drop i ols) = take ?k (drop j nls)"
        "newStart = int (j + ?k) + 1" "newStart \<le> newEnd" "nat newEnd \<le> length nls"
        "script ols nls (nat oldEnd) (nat newEnd) (headers_of ls)"
        by (simp_all add: Let_def)
      from Cons.IH [OF s(8) nzs] obtain st1 where
        s1: "apply_diff ?new (rev ls) st = Inr st1"
          "body (win st1) = unlines (take (nat oldEnd) ols @ drop (nat newEnd) nls)"
        by blast
      let ?cur = "take (nat oldEnd) ols @ drop (nat newEnd) nls"
      let ?st1 = "st1\<lparr>out := out st1 @ msgs\<rparr>"
      have lc: "\<forall>x\<in>set ?cur. newline \<notin> set x"
        using lo ln by (auto dest: in_set_takeD in_set_dropD)
      have os: "1 \<le> oldStart" using s(1) by simp
      have len: "nat oldEnd \<le> length ?cur" using s(3) by simp
      have ns: "1 \<le> newStart" using s(5) by simp
      from apply_hunk_c [OF lc ln _ os s(2) len ns s(6) mx s(7), of ?st1] s1(2)
      obtain st' where
        h: "apply_hunk ?new (CHR ''c'') oldStart oldEnd newStart newEnd ?st1 = Inr st'"
          "body (win st') = unlines (take (nat oldStart - 1) ?cur @
             take (nat newEnd - (nat newStart - 1)) (drop (nat newStart - 1) nls) @
             drop (nat oldEnd) ?cur)"
        by auto
      have dl: "diff_line ?new l st1 = Inr (Continue st')"
        using diff_line_hunk [OF dh' nz, of ?new st1 st'] h(1) c by simp
      have ik: "nat oldStart - 1 = i + ?k" using s(1) by simp
      have le: "i + ?k \<le> nat oldEnd" using s(1,2) by linarith
      have le': "nat oldStart - 1 \<le> nat oldEnd" using s(2) by simp
      have e1: "take (nat oldStart - 1) ?cur = take (nat oldStart - 1) ols" using s(3) le' by simp
      have e2: "drop (nat oldEnd) ?cur = drop (nat newEnd) nls" using s(3) by simp
      have jk: "nat newStart - 1 = j + ?k" using s(5) by simp
      have m: "j + ?k \<le> nat newEnd" using s(5,6) by linarith
      have e3: "take (nat newEnd - (j + ?k)) (drop (j + ?k) nls) @ drop (nat newEnd) nls =
          drop (j + ?k) nls"
        using m by (rule take_drop_rest)
      have cl: "take (i + ?k) ols @ drop (j + ?k) nls = take i ols @ drop j nls"
        using s(3,4) le by (intro common_lines) simp_all
      have cl': "take (nat oldStart - 1) ols @ drop (j + ?k) nls = take i ols @ drop j nls"
        using cl by (simp only: ik [symmetric])
      have "body (win st') = unlines (take i ols @ drop j nls)"
        unfolding h(2) e1 e2 jk e3 cl' ..
      then show ?thesis using app s1(1) dl by simp
    qed
  qed
qed


lemma round_trip:
  assumes "\<forall>l\<in>set ols. newline \<notin> set l" "\<forall>l\<in>set nls. newline \<notin> set l"
    and "dofmt e" "\<not> open_fails e" "file_read e = Some (unlines ols)" "\<not> fmt_fails e"
    "fmt_out e = unlines nls" "unlines nls \<noteq> unlines ols"
    "\<not> tempfile_fails e" "\<not> tempwrite_fails e" "\<not> readall_fails e"
    "body (win st) = unlines ols"
    and "script ols nls 0 0 (headers_of (strings_Split (diff_out e)))"
    and "list_all no_zero_start (headers_of (strings_Split (diff_out e)))"
  shows "\<exists>st'. reformat readImports e st = Inr st' \<and> body (win st') = unlines nls"
proof -
  let ?st1 = "st\<lparr>win := win_Write_ctl ''nomark'' (win_Write_ctl ''mark'' (win st))\<rparr>"
  have b: "body (win ?st1) = unlines ols"
    using assms(12) by (simp add: win_Write_ctl_def)
  have r: "reformat readImports e st =
      apply_diff (unlines nls) (rev (strings_Split (diff_out e))) ?st1"
    using reformat_full [of e "unlines ols" st readImports] assms(3-12) by simp
  from round_trip_aux [OF assms(1,2) b assms(13,14)] show ?thesis
    unfolding r by simp
qed


lemma round_trip_example:
  "\<exists>st'. reformat Some
       (run_env True (unlines [''a'', ''b'', ''c'']) (unlines [''a'', ''x'', ''c'', ''y''])
          ''2c2\<newline>< b\<newline>---\<newline>> x\<newline>3a4\<newline>> y\<newline>'')
       (initial (unlines [''a'', ''b'', ''c''])) = Inr st' \<and>
     body (win st') = unlines [''a'', ''x'', ''c'', ''y'']"
proof -
  let ?ols = "[''a'', ''b'', ''c'']" and ?nls = "[''a'', ''x'', ''c'', ''y'']"
  let ?d = "''2c2\<newline>< b\<newline>---\<newline>> x\<newline>3a4\<newline>> y\<newline>''"
  let ?e = "run_env True (unlines ?ols) (unlines ?nls) ?d"
  have l: "\<forall>l\<in>set ?ols. newline \<notin> set l" "\<forall>l\<in>set ?nls. newline \<notin> set l"
    by (simp_all add: newline_def)
  have e: "dofmt ?e" "\<not> open_fails ?e" "file_read ?e = Some (unlines ?ols)" "\<not> fmt_fails ?e"
    "fmt_out ?e = unlines ?nls" "unlines ?nls \<noteq> unlines ?ols"
    "\<not> tempfile_fails ?e" "\<not> tempwrite_fails ?e" "\<not> readall_fails ?e"
    "body (win (initial (unlines ?ols))) = unlines ?ols"
    by (simp_all add: run_env_def initial_def window_of_def)
  have h: "headers_of (strings_Split (diff_out ?e)) =
      [Hunk (CHR ''c'') 2 2 2 2, Hunk (CHR ''a'') 3 3 4 4]"
    by code_simp
  have s: "script ?ols ?nls 0 0 (headers_of (strings_Split (diff_out ?e)))"
    unfolding h by simp
  have z: "list_all no_zero_start (headers_of (strings_Split (diff_out ?e)))"
    unfolding h by simp
  show ?thesis
    using round_trip [OF l e s z] .
qed

section \<open>Hunks at the top of the document\<close>

text \<open>
  C1. Applying the edit operations of the diff of \<open>old\<close> against \<open>new\<close>, in the order of the loop,
  to a window whose content is \<open>old\<close> should give \<open>new\<close>. For texts made of whole lines and a
  diff none of whose hunks has an old start or a new start of 0, it does (\<open>round_trip\<close>). But the
  code passes over every hunk with \<open>oldStart = 0\<close> or \<open>newStart = 0\<close>, and these are the values
  that a diff gives to a deletion that leaves nothing before it (\<^verbatim>\<open>1d0\<close>, as when a formatter
  removes a leading blank line) and to an insertion before the first line (\<^verbatim>\<open>0a1\<close>). At both
  inputs below the window is left equal to \<open>old\<close>,
  with no message, although the very operation that the \<^verbatim>\<open>switch\<close> would perform for the hunk
  gives \<open>new\<close>.
\<close>

theorem hunk_at_top_is_lost:
  "reformat Some (run_env True ''\<newline>package p\<newline>'' ''package p\<newline>'' ''1d0\<newline>< \<newline>'')
       (initial ''\<newline>package p\<newline>'') =
     Inr \<lparr>win = \<lparr>body = ''\<newline>package p\<newline>'', q0 = 0, q1 = 0,
                calls = [WriteCtl ''mark'', WriteCtl ''nomark'']\<rparr>, out = []\<rparr> \<and>
   ''\<newline>package p\<newline>'' \<noteq> ''package p\<newline>'' \<and>
   map_sum id (\<lambda>s. body (win s))
       (apply_hunk ''package p\<newline>'' (CHR ''d'') 1 1 0 0 (initial ''\<newline>package p\<newline>'')) =
     Inr ''package p\<newline>'' \<and>
   reformat Some (run_env True ''b\<newline>'' ''a\<newline>b\<newline>'' ''0a1\<newline>> a\<newline>'') (initial ''b\<newline>'') =
     Inr \<lparr>win = \<lparr>body = ''b\<newline>'', q0 = 0, q1 = 0,
                calls = [WriteCtl ''mark'', WriteCtl ''nomark'']\<rparr>, out = []\<rparr> \<and>
   ''b\<newline>'' \<noteq> ''a\<newline>b\<newline>'' \<and>
   map_sum id (\<lambda>s. body (win s)) (apply_hunk ''a\<newline>b\<newline>'' (CHR ''a'') 0 0 1 1 (initial ''b\<newline>'')) =
     Inr ''a\<newline>b\<newline>''"
  by code_simp

end
